theory Spec2Isabelle
  imports Main "HOL-Library.Word"
begin

section \<open>atomKV: an append-only log with an in-memory index\<close>

text \<open>
  The development embeds \<^verbatim>\<open>bitcask.go\<close>. A Go \<^verbatim>\<open>string\<close> and a \<^verbatim>\<open>[]byte\<close> are byte
  sequences, here \<^typ>\<open>string\<close> (a list of 8-bit characters), so the conversions
  \<^verbatim>\<open>[]byte(key)\<close> and \<^verbatim>\<open>string(valueBytes)\<close> are the identity. \<^verbatim>\<open>uint32\<close> and \<^verbatim>\<open>int64\<close> are
  \<^typ>\<open>32 word\<close> and \<^typ>\<open>64 word\<close>. File offsets are the non-negative \<^verbatim>\<open>int64\<close> values
  returned by \<^verbatim>\<open>Seek\<close>; they are natural numbers here. The mutex is left out: the
  operations are modelled one at a time, as the lock serialises them.
\<close>

subsection \<open>Little-endian encoding (\<^verbatim>\<open>encoding/binary\<close>)\<close>

fun le_bytes :: "nat \<Rightarrow> nat \<Rightarrow> string" where
  "le_bytes 0 x = []"
| "le_bytes (Suc n) x = char_of (x mod 256) # le_bytes n (x div 256)"

fun le_nat :: "string \<Rightarrow> nat" where
  "le_nat [] = 0"
| "le_nat (c # cs) = of_char c + 256 * le_nat cs"

definition PutUint32 :: "32 word \<Rightarrow> string" where
  "PutUint32 x = le_bytes 4 (unat x)"

definition Uint32 :: "string \<Rightarrow> 32 word" where
  "Uint32 bs = word_of_nat (le_nat bs)"

definition PutInt64 :: "64 word \<Rightarrow> string" where
  "PutInt64 x = le_bytes 8 (unat x)"

definition Int64 :: "string \<Rightarrow> 64 word" where
  "Int64 bs = word_of_nat (le_nat bs)"

text \<open>
  The record that \<^verbatim>\<open>Set\<close> buffers (lines 48-55) and that \<^verbatim>\<open>Compact\<close> writes piece by
  piece (lines 171-175): timestamp, \<^verbatim>\<open>uint32(len(key))\<close>, \<^verbatim>\<open>uint32(len(value))\<close>, key,
  value. The conversion to \<^verbatim>\<open>uint32\<close> keeps the low 32 bits of the length.
\<close>

definition header :: "64 word \<Rightarrow> 32 word \<Rightarrow> 32 word \<Rightarrow> string" where
  "header ts ks vs = PutInt64 ts @ PutUint32 ks @ PutUint32 vs"

definition encode :: "64 word \<Rightarrow> string \<Rightarrow> string \<Rightarrow> string" where
  "encode ts key val =
     header ts (word_of_nat (length key)) (word_of_nat (length val)) @ key @ val"

subsection \<open>Files and the file system (\<^verbatim>\<open>os\<close>, \<^verbatim>\<open>io\<close>)\<close>

datatype error = ErrKeyNotFound | EOF | ErrUnexpectedEOF | ErrClosed | ErrIO

text \<open>
  The world outside the engine: the contents of every file by path, and a plan of the
  faults the operating system will raise. Each call of the source that reaches the
  operating system takes the head of the plan: \<open>None\<close> lets the call go through,
  \<open>Some n\<close> makes it fail with \<open>ErrIO\<close> (a failing write still transfers the first
  \<open>n\<close> bytes). An empty plan means no fault.
\<close>

record world =
  files :: "string \<rightharpoonup> string"
  faults :: "nat option list"

text \<open>
  An \<^verbatim>\<open>*os.File\<close>: the path it was opened on, its seek position, \<^verbatim>\<open>O_APPEND\<close>, closed or
  not. A handle reaches its file through the path. The engine uses no handle after the
  file at its path was renamed or removed (it closes the handle first), and an
  operation on such a handle fails with \<open>ErrIO\<close> here.
\<close>

record os_file =
  fname :: string
  fpos :: nat
  fappend :: bool
  fclosed :: bool

datatype whence = SeekStart | SeekCurrent | SeekEnd

definition next_fault :: "world \<Rightarrow> nat option \<times> world" where
  "next_fault w = (case faults w of [] \<Rightarrow> (None, w) | x # xs \<Rightarrow> (x, w\<lparr>faults := xs\<rparr>))"

text \<open>\<^verbatim>\<open>os.OpenFile\<close> with \<^verbatim>\<open>O_CREATE|O_RDWR\<close>, and \<^verbatim>\<open>O_TRUNC\<close> or \<^verbatim>\<open>O_APPEND\<close> as flags.\<close>

definition OpenFile :: "string \<Rightarrow> bool \<Rightarrow> bool \<Rightarrow> world \<Rightarrow> (error + os_file) \<times> world" where
  "OpenFile p trunc app w =
     (case next_fault w of
        (Some n, w1) \<Rightarrow> (Inl ErrIO, w1)
      | (None, w1) \<Rightarrow>
          (Inr \<lparr>fname = p, fpos = 0, fappend = app, fclosed = False\<rparr>,
           w1\<lparr>files := (files w1)(p \<mapsto>
                 (if trunc then [] else case files w1 p of None \<Rightarrow> [] | Some c \<Rightarrow> c))\<rparr>))"

text \<open>
  \<^verbatim>\<open>(*File).Seek\<close>. Every offset the source passes is non-negative. A position past
  the end of the file is accepted, as \<^verbatim>\<open>lseek\<close> accepts it. On an error Go returns 0.
\<close>

definition Seek :: "nat \<Rightarrow> whence \<Rightarrow> world \<Rightarrow> os_file \<Rightarrow> (error + nat) \<times> world \<times> os_file" where
  "Seek off wh w f =
     (if fclosed f then (Inl ErrClosed, w, f)
      else case files w (fname f) of
        None \<Rightarrow> (Inl ErrIO, w, f)
      | Some c \<Rightarrow>
          (case next_fault w of
             (Some n, w1) \<Rightarrow> (Inl ErrIO, w1, f)
           | (None, w1) \<Rightarrow>
               (let p = (case wh of SeekStart \<Rightarrow> off
                                  | SeekCurrent \<Rightarrow> fpos f + off
                                  | SeekEnd \<Rightarrow> length c + off)
                in (Inr p, w1, f\<lparr>fpos := p\<rparr>))))"

text \<open>
  \<^verbatim>\<open>io.ReadFull(f, buf)\<close> with \<^verbatim>\<open>len(buf) = n\<close>, which is also what \<^verbatim>\<open>binary.Read\<close> does
  for a fixed-size value. The result is the error and the bytes that were read. With
  \<open>n = 0\<close> no read is issued. At the end of the file the error is \<open>EOF\<close> when nothing
  was read and \<open>ErrUnexpectedEOF\<close> when fewer than \<open>n\<close> bytes were.
\<close>

definition ReadFull :: "nat \<Rightarrow> world \<Rightarrow> os_file \<Rightarrow> (error option \<times> string) \<times> world \<times> os_file" where
  "ReadFull n w f =
     (if n = 0 then ((None, []), w, f)
      else if fclosed f then ((Some ErrClosed, []), w, f)
      else case files w (fname f) of
        None \<Rightarrow> ((Some ErrIO, []), w, f)
      | Some c \<Rightarrow>
          (case next_fault w of
             (Some m, w1) \<Rightarrow> ((Some ErrIO, []), w1, f)
           | (None, w1) \<Rightarrow>
               (let avail = drop (fpos f) c in
                if n \<le> length avail then ((None, take n avail), w1, f\<lparr>fpos := fpos f + n\<rparr>)
                else if avail = [] then ((Some EOF, []), w1, f)
                else ((Some ErrUnexpectedEOF, avail), w1, f\<lparr>fpos := fpos f + length avail\<rparr>))))"

text \<open>
  \<^verbatim>\<open>(*File).ReadAt(buf, off)\<close> with \<^verbatim>\<open>len(buf) = n\<close>: the seek position is not used and
  not moved. A closed file is refused first; with \<open>n = 0\<close> no read is issued; fewer
  than \<open>n\<close> bytes at \<open>off\<close> give \<open>EOF\<close>.
\<close>

definition ReadAt :: "nat \<Rightarrow> nat \<Rightarrow> world \<Rightarrow> os_file \<Rightarrow> (error + string) \<times> world" where
  "ReadAt n off w f =
     (if fclosed f then (Inl ErrClosed, w)
      else if n = 0 then (Inr [], w)
      else case files w (fname f) of
        None \<Rightarrow> (Inl ErrIO, w)
      | Some c \<Rightarrow>
          (case next_fault w of
             (Some m, w1) \<Rightarrow> (Inl ErrIO, w1)
           | (None, w1) \<Rightarrow>
               (if n \<le> length (drop off c) then (Inr (take n (drop off c)), w1)
                else (Inl EOF, w1))))"

text \<open>
  \<^verbatim>\<open>(*File).Write\<close>: at the end of the file under \<^verbatim>\<open>O_APPEND\<close>, at the seek position
  otherwise (a position past the end leaves a hole of zero bytes).
\<close>

definition Write :: "string \<Rightarrow> world \<Rightarrow> os_file \<Rightarrow> error option \<times> world \<times> os_file" where
  "Write bs w f =
     (if fclosed f then (Some ErrClosed, w, f)
      else case files w (fname f) of
        None \<Rightarrow> (Some ErrIO, w, f)
      | Some c \<Rightarrow>
          (case next_fault w of (flt, w1) \<Rightarrow>
             (let at = (if fappend f then length c else fpos f);
                  sent = (case flt of None \<Rightarrow> bs | Some n \<Rightarrow> take n bs);
                  c' = take at c @ replicate (at - length c) (CHR 0x00) @ sent
                         @ drop (at + length sent) c
              in (map_option (\<lambda>n. ErrIO) flt,
                  w1\<lparr>files := (files w1)(fname f \<mapsto> c')\<rparr>,
                  f\<lparr>fpos := at + length sent\<rparr>))))"

text \<open>\<^verbatim>\<open>(*File).Close\<close>: the descriptor is released also when the system call fails.\<close>

definition CloseFile :: "world \<Rightarrow> os_file \<Rightarrow> error option \<times> world \<times> os_file" where
  "CloseFile w f =
     (if fclosed f then (Some ErrClosed, w, f)
      else case next_fault w of
        (flt, w1) \<Rightarrow> (map_option (\<lambda>n. ErrIO) flt, w1, f\<lparr>fclosed := True\<rparr>))"

definition Rename :: "string \<Rightarrow> string \<Rightarrow> world \<Rightarrow> error option \<times> world" where
  "Rename old new w =
     (case next_fault w of
        (Some n, w1) \<Rightarrow> (Some ErrIO, w1)
      | (None, w1) \<Rightarrow>
          (case files w1 old of
             None \<Rightarrow> (Some ErrIO, w1)
           | Some c \<Rightarrow> (None, w1\<lparr>files := ((files w1)(new \<mapsto> c))(old := None)\<rparr>)))"

definition Remove :: "string \<Rightarrow> world \<Rightarrow> error option \<times> world" where
  "Remove p w =
     (case next_fault w of
        (Some n, w1) \<Rightarrow> (Some ErrIO, w1)
      | (None, w1) \<Rightarrow>
          (case files w1 p of
             None \<Rightarrow> (Some ErrIO, w1)
           | Some c \<Rightarrow> (None, w1\<lparr>files := (files w1)(p := None)\<rparr>)))"

subsection \<open>The engine\<close>

record Bitcask =
  bfile :: os_file
  path :: string
  index :: "string \<rightharpoonup> nat"

text \<open>\<^verbatim>\<open>Open\<close> (lines 24-35): no scan, an empty index.\<close>

definition Open :: "string \<Rightarrow> world \<Rightarrow> (error + Bitcask) \<times> world" where
  "Open p w =
     (case OpenFile p False False w of
        (Inl e, w1) \<Rightarrow> (Inl e, w1)
      | (Inr f, w1) \<Rightarrow> (Inr \<lparr>bfile = f, path = p, index = Map.empty\<rparr>, w1))"

text \<open>
  \<^verbatim>\<open>Set\<close> (lines 38-63); \<open>ts\<close> is the value of \<^verbatim>\<open>time.Now().UnixNano()\<close>. The result is
  the returned error (\<open>None\<close> for \<^verbatim>\<open>nil\<close>), the world and the engine afterwards.
\<close>

definition Set :: "string \<Rightarrow> string \<Rightarrow> 64 word \<Rightarrow> world \<Rightarrow> Bitcask \<Rightarrow> error option \<times> world \<times> Bitcask" where
  "Set key val ts w b =
     (case Seek 0 SeekEnd w (bfile b) of
        (Inl e, w1, f1) \<Rightarrow> (Some e, w1, b\<lparr>bfile := f1\<rparr>)
      | (Inr offset, w1, f1) \<Rightarrow>
          (case Write (encode ts key val) w1 f1 of
             (Some e, w2, f2) \<Rightarrow> (Some e, w2, b\<lparr>bfile := f2\<rparr>)
           | (None, w2, f2) \<Rightarrow> (None, w2, b\<lparr>bfile := f2, index := (index b)(key \<mapsto> offset)\<rparr>)))"

text \<open>\<^verbatim>\<open>Get\<close> (lines 66-92). It reads with \<^verbatim>\<open>ReadAt\<close>, so the engine is unchanged.\<close>

definition Get :: "string \<Rightarrow> world \<Rightarrow> Bitcask \<Rightarrow> (error + string) \<times> world" where
  "Get key w b =
     (case index b key of
        None \<Rightarrow> (Inl ErrKeyNotFound, w)
      | Some offset \<Rightarrow>
          (case ReadAt 16 offset w (bfile b) of
             (Inl e, w1) \<Rightarrow> (Inl e, w1)
           | (Inr hdr, w1) \<Rightarrow>
               (let keySize = Uint32 (take 4 (drop 8 hdr));
                    valueSize = Uint32 (take 4 (drop 12 hdr));
                    valueOffset = offset + 16 + unat keySize
                in case ReadAt (unat valueSize) valueOffset w1 (bfile b) of
                     (Inl e, w2) \<Rightarrow> (Inl e, w2)
                   | (Inr valueBytes, w2) \<Rightarrow> (Inr valueBytes, w2))))"

text \<open>
  One turn of the loop of \<^verbatim>\<open>Load\<close> (lines 104-134). \<open>Inl e\<close>: the turn returns the
  error \<open>e\<close>; \<open>Inr None\<close>: the \<^verbatim>\<open>break\<close> on \<open>EOF\<close> at the timestamp;
  \<open>Inr (Some (key, offset))\<close>: the entry the turn stores in the index. The value is
  skipped with \<^verbatim>\<open>Seek\<close>, not read.
\<close>

definition Load_body :: "world \<Rightarrow> os_file \<Rightarrow> (error + (string \<times> nat) option) \<times> world \<times> os_file" where
  "Load_body w f =
     (case Seek 0 SeekCurrent w f of
        (Inl e, w1, f1) \<Rightarrow> (Inl e, w1, f1)
      | (Inr offset, w1, f1) \<Rightarrow>
     (case ReadFull 8 w1 f1 of
        ((Some e, tsb), w2, f2) \<Rightarrow> (if e = EOF then (Inr None, w2, f2) else (Inl e, w2, f2))
      | ((None, tsb), w2, f2) \<Rightarrow>
     (case ReadFull 4 w2 f2 of
        ((Some e, ksb), w3, f3) \<Rightarrow> (Inl e, w3, f3)
      | ((None, ksb), w3, f3) \<Rightarrow>
     (case ReadFull 4 w3 f3 of
        ((Some e, vsb), w4, f4) \<Rightarrow> (Inl e, w4, f4)
      | ((None, vsb), w4, f4) \<Rightarrow>
     (case ReadFull (unat (Uint32 ksb)) w4 f4 of
        ((Some e, keyBytes), w5, f5) \<Rightarrow> (Inl e, w5, f5)
      | ((None, keyBytes), w5, f5) \<Rightarrow>
     (case Seek (unat (Uint32 vsb)) SeekCurrent w5 f5 of
        (Inl e, w6, f6) \<Rightarrow> (Inl e, w6, f6)
      | (Inr p, w6, f6) \<Rightarrow> (Inr (Some (keyBytes, offset)), w6, f6)))))))"

text \<open>How many bytes of its file lie after the seek position of a handle.\<close>

definition remaining :: "world \<Rightarrow> os_file \<Rightarrow> nat" where
  "remaining w f = (case files w (fname f) of None \<Rightarrow> 0 | Some c \<Rightarrow> length c - fpos f)"

lemma next_fault_files: "next_fault w = (x, w') \<Longrightarrow> files w' = files w"
  by (auto simp: next_fault_def split: list.splits)

lemma Seek_files: "Seek off wh w f = (r, w', f') \<Longrightarrow> files w' = files w \<and> fname f' = fname f"
  by (auto simp: Seek_def Let_def split: if_splits option.splits prod.splits dest: next_fault_files)

lemma Seek_current_pos:
  "Seek off SeekCurrent w f = (Inr p, w', f') \<Longrightarrow> fpos f' = fpos f + off"
  by (auto simp: Seek_def Let_def split: if_splits option.splits prod.splits)

lemma ReadFull_files:
  "ReadFull n w f = (r, w', f') \<Longrightarrow> files w' = files w \<and> fname f' = fname f"
  by (auto simp: ReadFull_def Let_def split: if_splits option.splits prod.splits
           dest: next_fault_files)

lemma ReadFull_pos:
  "ReadFull n w f = ((None, bs), w', f') \<Longrightarrow> fpos f' = fpos f + n"
  by (auto simp: ReadFull_def Let_def split: if_splits option.splits prod.splits)

lemma ReadFull_fits:
  "ReadFull n w f = ((None, bs), w', f') \<Longrightarrow> 0 < n \<Longrightarrow>
   \<exists>c. files w (fname f) = Some c \<and> fpos f + n \<le> length c"
  by (auto simp: ReadFull_def Let_def split: if_splits option.splits prod.splits)

lemma Load_body_decreases:
  assumes "Load_body w f = (Inr (Some e), w', f')"
  shows "remaining w' f' < remaining w f"
proof -
  from assms obtain p w1 f1 tsb w2 f2 ksb w3 f3 vsb w4 f4 kb w5 f5 q where
    s1: "Seek 0 SeekCurrent w f = (Inr p, w1, f1)" and
    r1: "ReadFull 8 w1 f1 = ((None, tsb), w2, f2)" and
    r2: "ReadFull 4 w2 f2 = ((None, ksb), w3, f3)" and
    r3: "ReadFull 4 w3 f3 = ((None, vsb), w4, f4)" and
    r4: "ReadFull (unat (Uint32 ksb)) w4 f4 = ((None, kb), w5, f5)" and
    s2: "Seek (unat (Uint32 vsb)) SeekCurrent w5 f5 = (Inr q, w', f')"
    by (auto simp: Load_body_def split: prod.splits sum.splits option.splits if_splits)
  from ReadFull_fits [OF r1] obtain c where
    c: "files w1 (fname f1) = Some c" and fit: "fpos f1 + 8 \<le> length c"
    by auto
  have same: "files w' = files w" "fname f' = fname f" "files w1 = files w" "fname f1 = fname f"
    using Seek_files [OF s1] ReadFull_files [OF r1] ReadFull_files [OF r2]
      ReadFull_files [OF r3] ReadFull_files [OF r4] Seek_files [OF s2]
    by simp_all
  have "fpos f1 = fpos f"
    using Seek_current_pos [OF s1] by simp
  moreover have "fpos f' = fpos f1 + 8 + 4 + 4 + unat (Uint32 ksb) + unat (Uint32 vsb)"
    using ReadFull_pos [OF r1] ReadFull_pos [OF r2] ReadFull_pos [OF r3] ReadFull_pos [OF r4]
      Seek_current_pos [OF s2]
    by simp
  ultimately show ?thesis
    using c fit same by (simp add: remaining_def)
qed

text \<open>
  The loop of \<^verbatim>\<open>Load\<close> (lines 103-135). It ends: a turn that stores an entry has read
  a header, so it leaves fewer bytes after the seek position than it found.
\<close>

function Load_loop ::
  "world \<Rightarrow> os_file \<Rightarrow> (string \<rightharpoonup> nat) \<Rightarrow> error option \<times> world \<times> os_file \<times> (string \<rightharpoonup> nat)" where
  "Load_loop w f idx =
     (case Load_body w f of
        (Inl e, w', f') \<Rightarrow> (Some e, w', f', idx)
      | (Inr None, w', f') \<Rightarrow> (None, w', f', idx)
      | (Inr (Some (key, offset)), w', f') \<Rightarrow> Load_loop w' f' (idx(key \<mapsto> offset)))"
  by pat_completeness auto
termination
  apply (relation "measure (\<lambda>(w, f, idx). remaining w f)")
   apply simp
  apply (auto dest: Load_body_decreases [OF sym])
  done

declare Load_loop.simps [simp del]

text \<open>\<^verbatim>\<open>Load\<close> (lines 95-138). The index is not cleared before the scan.\<close>

definition Load :: "world \<Rightarrow> Bitcask \<Rightarrow> error option \<times> world \<times> Bitcask" where
  "Load w b =
     (case Seek 0 SeekStart w (bfile b) of
        (Inl e, w1, f1) \<Rightarrow> (Some e, w1, b\<lparr>bfile := f1\<rparr>)
      | (Inr p, w1, f1) \<Rightarrow>
          (case Load_loop w1 f1 (index b) of
             (r, w2, f2, idx) \<Rightarrow> (r, w2, b\<lparr>bfile := f2, index := idx\<rparr>)))"

text \<open>
  \<^verbatim>\<open>for key, value := range m\<close> visits every entry of a Go map once, in an order the
  language leaves open. The order is a parameter: a list of keys without repetition
  that holds every key of the map.
\<close>

definition range_map :: "'k list \<Rightarrow> ('k \<rightharpoonup> 'v) \<Rightarrow> ('k \<times> 'v) list" where
  "range_map order m = concat (map (\<lambda>k. case m k of None \<Rightarrow> [] | Some v \<Rightarrow> [(k, v)]) order)"

definition range_order :: "'k list \<Rightarrow> ('k \<rightharpoonup> 'v) \<Rightarrow> bool" where
  "range_order order m \<longleftrightarrow> distinct order \<and> dom m \<subseteq> set order"

text \<open>
  \<^verbatim>\<open>Compact\<close>, lines 160-168: the record at the old offset is read with every error
  dropped. A variable whose \<^verbatim>\<open>binary.Read\<close> failed keeps its zero value, and the value
  buffer, made with \<^verbatim>\<open>valueSize\<close> zero bytes, keeps the bytes that no read filled.
\<close>

definition Compact_read :: "world \<Rightarrow> os_file \<Rightarrow> (64 word \<times> 32 word \<times> string) \<times> world \<times> os_file" where
  "Compact_read w f =
     (case ReadFull 8 w f of ((e1, b1), w1, f1) \<Rightarrow>
      case ReadFull 4 w1 f1 of ((e2, b2), w2, f2) \<Rightarrow>
      case ReadFull 4 w2 f2 of ((e3, b3), w3, f3) \<Rightarrow>
      let timestamp = (if e1 = None then Int64 b1 else 0);
          keySize = (if e2 = None then Uint32 b2 else 0);
          valueSize = (if e3 = None then Uint32 b3 else 0)
      in case Seek (unat keySize) SeekCurrent w3 f3 of (r4, w4, f4) \<Rightarrow>
         case ReadFull (unat valueSize) w4 f4 of ((e5, b5), w5, f5) \<Rightarrow>
           ((timestamp, valueSize, b5 @ replicate (unat valueSize - length b5) (CHR 0x00)),
            w5, f5))"

text \<open>
  \<^verbatim>\<open>Compact\<close>, lines 170-175: the record is written to the temporary file in five
  writes, every error dropped; the result is \<^verbatim>\<open>newOffset\<close>.
\<close>

definition Compact_write ::
  "string \<Rightarrow> 64 word \<Rightarrow> 32 word \<Rightarrow> string \<Rightarrow> world \<Rightarrow> os_file \<Rightarrow> nat \<times> world \<times> os_file" where
  "Compact_write key timestamp valueSize valueBytes w t =
     (case Seek 0 SeekEnd w t of (r0, w0, t0) \<Rightarrow>
      case Write (PutInt64 timestamp) w0 t0 of (e1, w1, t1) \<Rightarrow>
      case Write (PutUint32 (word_of_nat (length key))) w1 t1 of (e2, w2, t2) \<Rightarrow>
      case Write (PutUint32 valueSize) w2 t2 of (e3, w3, t3) \<Rightarrow>
      case Write key w3 t3 of (e4, w4, t4) \<Rightarrow>
      case Write valueBytes w4 t4 of (e5, w5, t5) \<Rightarrow>
        ((case r0 of Inl e \<Rightarrow> 0 | Inr p \<Rightarrow> p), w5, t5))"

text \<open>
  The loop of \<^verbatim>\<open>Compact\<close> (lines 153-178) over the entries \<^verbatim>\<open>range\<close> yields. Only a
  failing \<^verbatim>\<open>Seek\<close> on the old file leaves the loop early: it closes and removes the
  temporary file and returns the error.
\<close>

fun Compact_loop ::
  "(string \<times> nat) list \<Rightarrow> string \<Rightarrow> world \<Rightarrow> os_file \<Rightarrow> os_file \<Rightarrow> (string \<rightharpoonup> nat) \<Rightarrow>
   error option \<times> world \<times> os_file \<times> os_file \<times> (string \<rightharpoonup> nat)" where
  "Compact_loop [] tempPath w f t newIndex = (None, w, f, t, newIndex)"
| "Compact_loop ((key, oldOffset) # rest) tempPath w f t newIndex =
     (case Seek oldOffset SeekStart w f of
        (Inl e, w1, f1) \<Rightarrow>
          (case CloseFile w1 t of (c, w2, t2) \<Rightarrow>
           case Remove tempPath w2 of (r, w3) \<Rightarrow> (Some e, w3, f1, t2, newIndex))
      | (Inr p, w1, f1) \<Rightarrow>
          (case Compact_read w1 f1 of ((timestamp, valueSize, valueBytes), w2, f2) \<Rightarrow>
           case Compact_write key timestamp valueSize valueBytes w2 t of (newOffset, w3, t3) \<Rightarrow>
             Compact_loop rest tempPath w3 f2 t3 (newIndex(key \<mapsto> newOffset))))"

text \<open>
  \<^verbatim>\<open>Compact\<close> (lines 141-195); \<open>order\<close> is the order in which \<^verbatim>\<open>range b.index\<close> runs.
  After the loop both files are closed, the temporary file is renamed over the log and
  the log is opened again with \<^verbatim>\<open>O_APPEND\<close>.
\<close>

definition Compact :: "string list \<Rightarrow> world \<Rightarrow> Bitcask \<Rightarrow> error option \<times> world \<times> Bitcask" where
  "Compact order w b =
     (let tempPath = path b @ ''.tmp'' in
      case OpenFile tempPath True False w of
        (Inl e, w1) \<Rightarrow> (Some e, w1, b)
      | (Inr tempFile, w1) \<Rightarrow>
     (case Compact_loop (range_map order (index b)) tempPath w1 (bfile b) tempFile Map.empty of
        (Some e, w2, f2, t2, newIndex) \<Rightarrow> (Some e, w2, b\<lparr>bfile := f2\<rparr>)
      | (None, w2, f2, t2, newIndex) \<Rightarrow>
     (case CloseFile w2 f2 of (c1, w3, f3) \<Rightarrow>
      case CloseFile w3 t2 of (c2, w4, t4) \<Rightarrow>
     (case Rename tempPath (path b) w4 of
        (Some e, w5) \<Rightarrow> (Some e, w5, b\<lparr>bfile := f3\<rparr>)
      | (None, w5) \<Rightarrow>
     (case OpenFile (path b) False True w5 of
        (Inl e, w6) \<Rightarrow> (Some e, w6, b\<lparr>bfile := f3\<rparr>)
      | (Inr newFile, w6) \<Rightarrow> (None, w6, b\<lparr>bfile := newFile, index := newIndex\<rparr>))))))"

text \<open>\<^verbatim>\<open>Keys\<close> (lines 198-207), in the order \<^verbatim>\<open>range\<close> runs.\<close>

definition Keys :: "string list \<Rightarrow> Bitcask \<Rightarrow> string list" where
  "Keys order b = map fst (range_map order (index b))"

text \<open>\<^verbatim>\<open>Close\<close> (lines 210-214).\<close>

definition Close :: "world \<Rightarrow> Bitcask \<Rightarrow> error option \<times> world \<times> Bitcask" where
  "Close w b = (case CloseFile w (bfile b) of (e, w1, f1) \<Rightarrow> (e, w1, b\<lparr>bfile := f1\<rparr>))"

subsection \<open>Vocabulary of the statements\<close>

text \<open>
  The engine is open on a log: its handle is not closed, it is a handle on the path
  of the engine, and the file at that path holds \<open>log\<close>.
\<close>

definition open_on :: "world \<Rightarrow> Bitcask \<Rightarrow> string \<Rightarrow> bool" where
  "open_on w b log \<longleftrightarrow>
     \<not> fclosed (bfile b) \<and> fname (bfile b) = path b \<and> files w (path b) = Some log"

text \<open>
  The fields of the header found at an offset of the log, the value bytes behind it,
  and whether the whole record lies inside the log.
\<close>

definition keySize_at :: "string \<Rightarrow> nat \<Rightarrow> nat" where
  "keySize_at log off = unat (Uint32 (take 4 (drop (off + 8) log)))"

definition valueSize_at :: "string \<Rightarrow> nat \<Rightarrow> nat" where
  "valueSize_at log off = unat (Uint32 (take 4 (drop (off + 12) log)))"

definition value_at :: "string \<Rightarrow> nat \<Rightarrow> string" where
  "value_at log off = take (valueSize_at log off) (drop (off + 16 + keySize_at log off) log)"

definition record_at :: "string \<Rightarrow> nat \<Rightarrow> bool" where
  "record_at log off \<longleftrightarrow>
     off + 16 + keySize_at log off + valueSize_at log off \<le> length log"

text \<open>A world with one file, \<^verbatim>\<open>db\<close>, and an engine open on it, for the examples.\<close>

definition world_with :: "string \<Rightarrow> nat option list \<Rightarrow> world" where
  "world_with log plan = \<lparr>files = [''db'' \<mapsto> log], faults = plan\<rparr>"

definition engine_with :: "(string \<rightharpoonup> nat) \<Rightarrow> Bitcask" where
  "engine_with idx =
     \<lparr>bfile = \<lparr>fname = ''db'', fpos = 0, fappend = False, fclosed = False\<rparr>,
      path = ''db'', index = idx\<rparr>"

text \<open>
  A record of the log as the specification has it: timestamp, key, value. It fits the
  header when both lengths are below \<open>2 ^ 32\<close>, the invariant of a record in section 3
  of the specification. \<open>encode_all\<close> is the log that holds the records one after the
  other, without separators.
\<close>

type_synonym log_record = "64 word \<times> string \<times> string"

definition fits32 :: "log_record \<Rightarrow> bool" where
  "fits32 r = (case r of (ts, k, v) \<Rightarrow> length k < 2 ^ 32 \<and> length v < 2 ^ 32)"

definition encode_all :: "log_record list \<Rightarrow> string" where
  "encode_all rs = concat (map (\<lambda>(ts, k, v). encode ts k v) rs)"

text \<open>
  The index that a scan of the records builds when the first of them starts at \<open>off\<close>:
  every record stores its own offset under its key, over what was there.
\<close>

fun index_from :: "nat \<Rightarrow> log_record list \<Rightarrow> (string \<rightharpoonup> nat) \<Rightarrow> (string \<rightharpoonup> nat)" where
  "index_from off [] m = m"
| "index_from off ((ts, k, v) # rs) m = index_from (off + length (encode ts k v)) rs (m(k \<mapsto> off))"

text \<open>
  A restart of the store: \<^verbatim>\<open>Close\<close>, then \<^verbatim>\<open>Open\<close> on the same path, then \<^verbatim>\<open>Load\<close>, as the
  command-line tool does from one run to the next.
\<close>

definition reopen :: "world \<Rightarrow> Bitcask \<Rightarrow> error option \<times> world \<times> Bitcask" where
  "reopen w b =
     (case Close w b of
        (Some e, w1, b1) \<Rightarrow> (Some e, w1, b1)
      | (None, w1, b1) \<Rightarrow>
          (case Open (path b) w1 of
             (Inl e, w2) \<Rightarrow> (Some e, w2, b1)
           | (Inr b2, w2) \<Rightarrow> Load w2 b2))"

text \<open>Two states of one handle: all but the seek position is the same.\<close>

definition same_handle :: "os_file \<Rightarrow> os_file \<Rightarrow> bool" where
  "same_handle f f' \<longleftrightarrow>
     fname f' = fname f \<and> fappend f' = fappend f \<and> fclosed f' = fclosed f"

text \<open>
  What \<^verbatim>\<open>Compact\<close> with no fault writes for an index entry: the key of the entry, with
  the timestamp and the value found at the offset of the entry.
\<close>

definition timestamp_at :: "string \<Rightarrow> nat \<Rightarrow> 64 word" where
  "timestamp_at log off = Int64 (take 8 (drop off log))"

definition rewritten :: "string \<Rightarrow> string \<times> nat \<Rightarrow> log_record" where
  "rewritten log e = (case e of (k, off) \<Rightarrow> (timestamp_at log off, k, value_at log off))"

text \<open>
  The key of a record, and the value of the last record of a log with a given key.
\<close>

definition rkey :: "log_record \<Rightarrow> string" where
  "rkey r = fst (snd r)"

definition latest_value :: "log_record list \<Rightarrow> string \<rightharpoonup> string" where
  "latest_value rs = map_of (rev (map snd rs))"

text \<open>
  The offset \<open>off\<close> is the place where the records put a key: some record starts at \<open>off\<close>,
  its key is \<open>k\<close>, and no record with the key \<open>k\<close> comes after it. The index satisfies the
  invariant for the records when each of its entries is such a place.
\<close>

definition is_latest :: "log_record list \<Rightarrow> string \<Rightarrow> nat \<Rightarrow> bool" where
  "is_latest rs k off \<longleftrightarrow>
     (\<exists>i<length rs. off = length (encode_all (take i rs)) \<and> rkey (rs ! i) = k \<and>
        (\<forall>j<length rs. rkey (rs ! j) = k \<longrightarrow> j \<le> i))"

definition index_inv :: "log_record list \<Rightarrow> (string \<rightharpoonup> nat) \<Rightarrow> bool" where
  "index_inv rs idx \<longleftrightarrow> (\<forall>k off. idx k = Some off \<longrightarrow> is_latest rs k off)"

text \<open>
  The state of a store in a run without faults: the engine is open on a log that holds
  the records \<open>rs\<close>, whole and each fitting its header, and the index satisfies the
  invariant for them.
\<close>

definition store_inv :: "world \<Rightarrow> Bitcask \<Rightarrow> log_record list \<Rightarrow> bool" where
  "store_inv w b rs \<longleftrightarrow>
     open_on w b (encode_all rs) \<and> (\<forall>r\<in>set rs. fits32 r) \<and> index_inv rs (index b)"

section \<open>Basic facts\<close>

subsection \<open>The codec\<close>

lemma length_le_bytes [simp]: "length (le_bytes n x) = n"
  by (induction n arbitrary: x) auto

lemma le_nat_le_bytes: "le_nat (le_bytes n x) = x mod 256 ^ n"
proof (induction n arbitrary: x)
  case 0
  then show ?case by simp
next
  case (Suc n)
  then show ?case by (simp add: mod_mult2_eq)
qed

lemma Uint32_PutUint32 [simp]: "Uint32 (PutUint32 x) = x"
proof -
  have "unat x < 256 ^ 4"
    using unsigned_less [of x, where ?'a = nat] by simp
  then show ?thesis
    by (simp add: Uint32_def PutUint32_def le_nat_le_bytes)
qed

lemma Int64_PutInt64 [simp]: "Int64 (PutInt64 x) = x"
proof -
  have "unat x < 256 ^ 8"
    using unsigned_less [of x, where ?'a = nat] by simp
  then show ?thesis
    by (simp add: Int64_def PutInt64_def le_nat_le_bytes)
qed

lemma length_PutUint32 [simp]: "length (PutUint32 x) = 4"
  by (simp add: PutUint32_def)

lemma length_PutInt64 [simp]: "length (PutInt64 x) = 8"
  by (simp add: PutInt64_def)

lemma length_header [simp]: "length (header ts ks vs) = 16"
  by (simp add: header_def)

lemma length_encode [simp]: "length (encode ts k v) = 16 + length k + length v"
  by (simp add: encode_def)

lemma header_fields [simp]:
  "take 8 (header ts ks vs) = PutInt64 ts"
  "take 4 (drop 8 (header ts ks vs)) = PutUint32 ks"
  "take 4 (drop 12 (header ts ks vs)) = PutUint32 vs"
  by (simp_all add: header_def)

lemma unat_len32: "n < 2 ^ 32 \<Longrightarrow> unat (word_of_nat n :: 32 word) = n"
  by (simp add: unat_of_nat)

subsection \<open>File operations when no fault is planned\<close>

lemma next_fault_none [simp]: "faults w = [] \<Longrightarrow> next_fault w = (None, w)"
  by (simp add: next_fault_def)

lemma Seek_ok:
  "\<lbrakk>faults w = []; \<not> fclosed f; files w (fname f) = Some c\<rbrakk> \<Longrightarrow>
   Seek off wh w f =
     (Inr (case wh of SeekStart \<Rightarrow> off | SeekCurrent \<Rightarrow> fpos f + off | SeekEnd \<Rightarrow> length c + off),
      w, f\<lparr>fpos := (case wh of SeekStart \<Rightarrow> off | SeekCurrent \<Rightarrow> fpos f + off
                                | SeekEnd \<Rightarrow> length c + off)\<rparr>)"
  by (simp add: Seek_def Let_def)

lemma ReadFull_ok:
  "\<lbrakk>faults w = []; \<not> fclosed f; files w (fname f) = Some c; fpos f + n \<le> length c\<rbrakk> \<Longrightarrow>
   ReadFull n w f = ((None, take n (drop (fpos f) c)), w, f\<lparr>fpos := fpos f + n\<rparr>)"
  by (simp add: ReadFull_def Let_def)

lemma ReadAt_ok:
  "\<lbrakk>faults w = []; \<not> fclosed f; files w (fname f) = Some c; off + n \<le> length c\<rbrakk> \<Longrightarrow>
   ReadAt n off w f = (Inr (take n (drop off c)), w)"
  by (simp add: ReadAt_def)

lemma Write_ok:
  "\<lbrakk>faults w = []; \<not> fclosed f; files w (fname f) = Some c; fappend f \<or> fpos f = length c\<rbrakk> \<Longrightarrow>
   Write bs w f =
     (None, w\<lparr>files := (files w)(fname f \<mapsto> c @ bs)\<rparr>, f\<lparr>fpos := length c + length bs\<rparr>)"
  by (auto simp: Write_def)

lemma header_slices:
  "take 4 (drop 8 (take 16 (drop off log))) = take 4 (drop (off + 8) log)"
  "take 4 (drop 12 (take 16 (drop off log))) = take 4 (drop (off + 12) log)"
  by (simp_all add: drop_take add.commute)

lemma Set_ok:
  assumes "open_on w b log" "faults w = []"
  shows "Set key val ts w b =
     (None, w\<lparr>files := (files w)(path b \<mapsto> log @ encode ts key val)\<rparr>,
      b\<lparr>bfile := (bfile b)\<lparr>fpos := length log + length (encode ts key val)\<rparr>,
        index := (index b)(key \<mapsto> length log)\<rparr>)"
  using assms by (simp add: Set_def open_on_def Seek_ok Write_ok)

lemma Get_ok:
  assumes "open_on w b log" "faults w = []" "index b key = Some off" "record_at log off"
  shows "Get key w b = (Inr (value_at log off), w)"
  using assms
  by (simp add: Get_def open_on_def ReadAt_ok record_at_def value_at_def keySize_at_def
      valueSize_at_def Let_def header_slices del: take_drop drop_take)

lemma open_on_example [simp]: "open_on (world_with log plan) (engine_with idx) log"
  by (simp add: open_on_def world_with_def engine_with_def)

lemma example_simps [simp]:
  "faults (world_with log plan) = plan"
  "index (engine_with idx) = idx"
  "path (engine_with idx) = ''db''"
  by (simp_all add: world_with_def engine_with_def)

lemma Set_error_index:
  "Set key val ts w b = (Some e, w', b') \<Longrightarrow> index b' = index b"
  by (auto simp: Set_def split: prod.splits sum.splits option.splits)

lemma ReadAt_not_KeyNotFound: "ReadAt n off w f = (Inl e, w') \<Longrightarrow> e \<noteq> ErrKeyNotFound"
  by (auto simp: ReadAt_def next_fault_def split: if_splits option.splits prod.splits list.splits)

lemma Get_KeyNotFound_iff: "fst (Get key w b) = Inl ErrKeyNotFound \<longleftrightarrow> index b key = None"
  by (auto simp: Get_def Let_def split: option.splits prod.splits sum.splits
           dest: ReadAt_not_KeyNotFound)

lemma Open_index: "Open p w = (Inr b, w') \<Longrightarrow> index b = Map.empty"
  by (auto simp: Open_def split: prod.splits sum.splits)

lemma sizes_at_encode:
  assumes "length k < 2 ^ 32" "length v < 2 ^ 32"
  shows "keySize_at (pre @ encode ts k v @ post) (length pre) = length k"
    and "valueSize_at (pre @ encode ts k v @ post) (length pre) = length v"
  using assms by (simp_all add: keySize_at_def valueSize_at_def encode_def unat_len32)

lemma value_at_encode:
  assumes "length k < 2 ^ 32" "length v < 2 ^ 32"
  shows "value_at (pre @ encode ts k v @ post) (length pre) = v"
  using assms by (simp add: value_at_def sizes_at_encode) (simp add: encode_def)

lemma record_at_encode:
  assumes "length k < 2 ^ 32" "length v < 2 ^ 32"
  shows "record_at (pre @ encode ts k v @ post) (length pre)"
  using assms by (simp add: record_at_def sizes_at_encode)

lemma sizes_at_example:
  "keySize_at (encode 0 ''k'' ''hello'') 0 = 1"
  "valueSize_at (encode 0 ''k'' ''hello'') 0 = 5"
  using sizes_at_encode [of "''k''" "''hello''" "[]" 0 "[]"] by simp_all

lemma encode_all_simps [simp]:
  "encode_all [] = []"
  "encode_all ((ts, k, v) # rs) = encode ts k v @ encode_all rs"
  "encode_all (rs @ rs') = encode_all rs @ encode_all rs'"
  by (simp_all add: encode_all_def)

lemma Load_body_end:
  assumes "faults w = []" "\<not> fclosed f" "files w (fname f) = Some c" "length c \<le> fpos f"
  shows "Load_body w f = (Inr None, w, f)"
  using assms by (simp add: Load_body_def Seek_ok ReadFull_def)

lemma Load_body_record:
  assumes "faults w = []" "\<not> fclosed f"
    and "files w (fname f) = Some (pre @ encode ts k v @ post)"
    and "fpos f = length pre" "length k < 2 ^ 32" "length v < 2 ^ 32"
  shows "Load_body w f =
    (Inr (Some (k, length pre)), w, f\<lparr>fpos := length pre + length (encode ts k v)\<rparr>)"
  using assms
  by (simp add: Load_body_def Seek_ok ReadFull_ok encode_def header_def unat_len32)

lemma Load_loop_records:
  assumes "faults w = []" "\<not> fclosed f"
    and "files w (fname f) = Some (pre @ encode_all rs)"
    and "fpos f = length pre" "\<forall>r\<in>set rs. fits32 r"
  shows "Load_loop w f idx =
    (None, w, f\<lparr>fpos := length pre + length (encode_all rs)\<rparr>, index_from (length pre) rs idx)"
  using assms
proof (induction rs arbitrary: pre f idx)
  case Nil
  then have "Load_body w f = (Inr None, w, f)"
    by (simp add: Load_body_end)
  with Nil show ?case
    by (simp add: Load_loop.simps)
next
  case (Cons r rs)
  obtain ts k v where r: "r = (ts, k, v)"
    by (cases r) auto
  with Cons.prems have fit: "length k < 2 ^ 32" "length v < 2 ^ 32"
    by (simp_all add: fits32_def)
  let ?f = "f\<lparr>fpos := length pre + length (encode ts k v)\<rparr>"
  have body: "Load_body w f = (Inr (Some (k, length pre)), w, ?f)"
    using Cons.prems fit by (simp add: r Load_body_record)
  have "Load_loop w ?f (idx(k \<mapsto> length pre)) =
    (None, w, ?f\<lparr>fpos := length (pre @ encode ts k v) + length (encode_all rs)\<rparr>,
     index_from (length (pre @ encode ts k v)) rs (idx(k \<mapsto> length pre)))"
    using Cons.prems by (intro Cons.IH) (simp_all add: r)
  with body show ?case
    by (simp add: Load_loop.simps [of w f] r add.assoc)
qed

lemma Get_at_record:
  assumes "open_on w b (pre @ encode ts k v @ post)" "faults w = []"
    and "index b key = Some (length pre)" "length k < 2 ^ 32" "length v < 2 ^ 32"
  shows "Get key w b = (Inr v, w)"
  using assms Get_ok [OF assms(1,2,3)]
  by (simp add: record_at_encode value_at_encode)

lemma Set_ok_state:
  assumes "open_on w b log" "faults w = []" "Set key val ts w b = (r, w', b')"
  shows "r = None" "open_on w' b' (log @ encode ts key val)" "faults w' = []"
    "index b' = (index b)(key \<mapsto> length log)" "path b' = path b"
  using assms(3) unfolding Set_ok [OF assms(1,2)] using assms(1,2)
  by (auto simp: open_on_def)

lemma Load_ok:
  assumes "open_on w b (encode_all rs)" "faults w = []" "\<forall>r\<in>set rs. fits32 r"
  shows "Load w b =
    (None, w, b\<lparr>bfile := (bfile b)\<lparr>fpos := length (encode_all rs)\<rparr>,
                index := index_from 0 rs (index b)\<rparr>)"
proof -
  let ?f = "(bfile b)\<lparr>fpos := 0\<rparr>"
  have "Seek 0 SeekStart w (bfile b) = (Inr 0, w, ?f)"
    using assms by (simp add: Seek_ok open_on_def)
  moreover have "Load_loop w ?f (index b) =
    (None, w, ?f\<lparr>fpos := length ([] :: string) + length (encode_all rs)\<rparr>,
     index_from (length ([] :: string)) rs (index b))"
    using assms by (intro Load_loop_records) (simp_all add: open_on_def)
  ultimately show ?thesis
    by (simp add: Load_def)
qed

lemma Close_ok:
  "\<lbrakk>faults w = []; \<not> fclosed (bfile b)\<rbrakk> \<Longrightarrow>
   Close w b = (None, w, b\<lparr>bfile := (bfile b)\<lparr>fclosed := True\<rparr>\<rparr>)"
  by (simp add: Close_def CloseFile_def)

lemma Open_existing:
  "\<lbrakk>faults w = []; files w p = Some c\<rbrakk> \<Longrightarrow>
   Open p w = (Inr \<lparr>bfile = \<lparr>fname = p, fpos = 0, fappend = False, fclosed = False\<rparr>,
                   path = p, index = Map.empty\<rparr>, w)"
  by (simp add: Open_def OpenFile_def map_upd_triv)

lemma reopen_ok:
  assumes "open_on w b (encode_all rs)" "faults w = []" "\<forall>r\<in>set rs. fits32 r"
  shows "reopen w b =
    (None, w, \<lparr>bfile = \<lparr>fname = path b, fpos = length (encode_all rs), fappend = False,
                        fclosed = False\<rparr>,
               path = path b, index = index_from 0 rs Map.empty\<rparr>)"
proof -
  let ?n = "\<lparr>bfile = \<lparr>fname = path b, fpos = 0, fappend = False, fclosed = False\<rparr>,
                   path = path b, index = Map.empty\<rparr>"
  have "open_on w ?n (encode_all rs)"
    using assms(1) by (simp add: open_on_def)
  from Load_ok [OF this assms(2,3)] show ?thesis
    using assms by (simp add: reopen_def Close_ok Open_existing open_on_def)
qed

lemma index_from_snoc:
  "index_from off (rs @ [(ts, k, v)]) m = (index_from off rs m)(k \<mapsto> off + length (encode_all rs))"
proof (induction rs arbitrary: off m)
  case Nil
  show ?case by simp
next
  case (Cons r rs)
  obtain ts' k' v' where r: "r = (ts', k', v')"
    by (cases r) auto
  let ?n = "length (encode ts' k' v')"
  have "index_from off ((r # rs) @ [(ts, k, v)]) m
      = index_from (off + ?n) (rs @ [(ts, k, v)]) (m(k' \<mapsto> off))"
    by (simp add: r)
  also have "\<dots> = (index_from (off + ?n) rs (m(k' \<mapsto> off)))
      (k \<mapsto> off + ?n + length (encode_all rs))"
    by (rule Cons.IH)
  also have "\<dots> = (index_from off (r # rs) m)(k \<mapsto> off + length (encode_all (r # rs)))"
    by (simp add: r add.assoc)
  finally show ?case .
qed

lemma Set_Get:
  assumes "open_on w b log" "faults w = []" "length k < 2 ^ 32" "length v < 2 ^ 32"
    and "Set k v ts w b = (r, w1, b1)"
  shows "r = None" "Get k w1 b1 = (Inr v, w1)"
proof -
  note st = Set_ok_state [OF assms(1,2,5)]
  show "r = None" by (rule st)
  have "open_on w1 b1 (log @ encode ts k v @ [])"
    using st(2) by simp
  moreover have "index b1 k = Some (length log)"
    using st(4) by simp
  ultimately show "Get k w1 b1 = (Inr v, w1)"
    using st(3) assms(3,4) by (simp add: Get_at_record [where pre = log and post = "[]"])
qed

lemma Set_Set_Get:
  assumes "open_on w b log" "faults w = []" "length k < 2 ^ 32" "length v < 2 ^ 32"
    and "Set k v ts w b = (r, w1, b1)" "Set k2 v2 t2 w1 b1 = (r2, w2, b2)" "k2 \<noteq> k"
  shows "r2 = None" "Get k w2 b2 = (Inr v, w2)"
proof -
  note st = Set_ok_state [OF assms(1,2,5)]
  note st2 = Set_ok_state [OF st(2,3) assms(6)]
  show "r2 = None" by (rule st2)
  have "open_on w2 b2 (log @ encode ts k v @ encode t2 k2 v2)"
    using st2(2) by simp
  moreover have "index b2 k = Some (length log)"
    using st(4) st2(4) assms(7) by simp
  ultimately show "Get k w2 b2 = (Inr v, w2)"
    using st2(3) assms(3,4)
    by (simp add: Get_at_record [where pre = log and post = "encode t2 k2 v2"])
qed

lemma Get_reopen:
  assumes "open_on w b (encode_all (rs @ [(ts, k, v)]))" "faults w = []"
    and "\<forall>r\<in>set rs. fits32 r" "length k < 2 ^ 32" "length v < 2 ^ 32"
    and "reopen w b = (r, w1, b1)"
  shows "r = None" "Get k w1 b1 = (Inr v, w1)"
proof -
  have fit: "\<forall>r\<in>set (rs @ [(ts, k, v)]). fits32 r"
    using assms(3,4,5) by (simp add: fits32_def)
  note ro = reopen_ok [OF assms(1,2) fit]
  with assms(6) show "r = None" by simp
  from ro assms(6) have w1: "w1 = w" and b1: "b1 = \<lparr>bfile = \<lparr>fname = path b,
      fpos = length (encode_all (rs @ [(ts, k, v)])), fappend = False, fclosed = False\<rparr>,
      path = path b, index = index_from 0 (rs @ [(ts, k, v)]) Map.empty\<rparr>"
    by simp_all
  have "open_on w1 b1 (encode_all rs @ encode ts k v @ [])"
    using assms(1) by (simp add: w1 b1 open_on_def)
  moreover have "index b1 k = Some (length (encode_all rs))"
    by (simp add: b1 index_from_snoc)
  ultimately show "Get k w1 b1 = (Inr v, w1)"
    using assms(2,4,5)
    by (simp add: w1 Get_at_record [where pre = "encode_all rs" and post = "[]"])
qed

lemma same_handle_refl [simp]: "same_handle f f"
  by (simp add: same_handle_def)

lemma same_handle_trans: "same_handle f g \<Longrightarrow> same_handle g h \<Longrightarrow> same_handle f h"
  by (simp add: same_handle_def)

lemma same_handle_pos: "same_handle f f' \<Longrightarrow> f'\<lparr>fpos := p\<rparr> = f\<lparr>fpos := p\<rparr>"
  by (simp add: same_handle_def)

lemma Seek_nofault:
  "faults w = [] \<Longrightarrow> Seek off wh w f = (r, w', f') \<Longrightarrow> w' = w \<and> same_handle f f'"
  by (auto simp: Seek_def Let_def same_handle_def split: if_splits option.splits)

lemma ReadFull_nofault:
  "faults w = [] \<Longrightarrow> ReadFull n w f = (r, w', f') \<Longrightarrow> w' = w \<and> same_handle f f'"
  by (auto simp: ReadFull_def Let_def same_handle_def split: if_splits option.splits)

lemma Load_body_nofault:
  assumes "faults w = []" "Load_body w f = (r, w', f')"
  shows "w' = w \<and> same_handle f f'"
proof -
  obtain r1 w1 f1 where s1: "Seek 0 SeekCurrent w f = (r1, w1, f1)"
    by (cases "Seek 0 SeekCurrent w f") auto
  note a1 = Seek_nofault [OF assms(1) s1]
  obtain e2 b2 w2 f2 where s2: "ReadFull 8 w f1 = ((e2, b2), w2, f2)"
    by (cases "ReadFull 8 w f1") auto
  note a2 = ReadFull_nofault [OF assms(1) s2]
  obtain e3 b3 w3 f3 where s3: "ReadFull 4 w f2 = ((e3, b3), w3, f3)"
    by (cases "ReadFull 4 w f2") auto
  note a3 = ReadFull_nofault [OF assms(1) s3]
  obtain e4 b4 w4 f4 where s4: "ReadFull 4 w f3 = ((e4, b4), w4, f4)"
    by (cases "ReadFull 4 w f3") auto
  note a4 = ReadFull_nofault [OF assms(1) s4]
  obtain e5 b5 w5 f5 where s5: "ReadFull (unat (Uint32 b3)) w f4 = ((e5, b5), w5, f5)"
    by (cases "ReadFull (unat (Uint32 b3)) w f4") auto
  note a5 = ReadFull_nofault [OF assms(1) s5]
  obtain r6 w6 f6 where s6: "Seek (unat (Uint32 b4)) SeekCurrent w f5 = (r6, w6, f6)"
    by (cases "Seek (unat (Uint32 b4)) SeekCurrent w f5") auto
  note a6 = Seek_nofault [OF assms(1) s6]
  have w: "w1 = w" "w2 = w" "w3 = w" "w4 = w" "w5 = w" "w6 = w"
    using a1 a2 a3 a4 a5 a6 by simp_all
  have h: "same_handle f f1" "same_handle f f2" "same_handle f f3" "same_handle f f4"
    "same_handle f f5" "same_handle f f6"
    using a1 a2 a3 a4 a5 a6 by (simp_all add: same_handle_def)
  have "(w', f') \<in> {(w, f1), (w, f2), (w, f3), (w, f4), (w, f5), (w, f6)}"
    using assms(2) s1 s2 s3 s4 s5 s6 unfolding Load_body_def w
    by (simp split: sum.splits option.splits if_splits)
  with h show ?thesis
    by auto
qed

lemma Load_loop_nofault:
  "faults w = [] \<Longrightarrow> Load_loop w f idx = (r, w', f', idx') \<Longrightarrow> w' = w \<and> same_handle f f'"
proof (induction w f idx arbitrary: r w' f' idx' rule: Load_loop.induct)
  case (1 w f idx)
  obtain x w1 f1 where body: "Load_body w f = (x, w1, f1)"
    by (cases "Load_body w f") auto
  note nf = Load_body_nofault [OF "1.prems"(1) body]
  show ?case
  proof (cases x)
    case (Inl e)
    with "1.prems"(2) body nf show ?thesis
      by (simp add: Load_loop.simps [of w f])
  next
    case (Inr y)
    show ?thesis
    proof (cases y)
      case None
      with "1.prems"(2) body nf Inr show ?thesis
        by (simp add: Load_loop.simps [of w f])
    next
      case (Some e)
      obtain key offset where e: "e = (key, offset)"
        by (cases e) auto
      have loop: "Load_loop w1 f1 (idx(key \<mapsto> offset)) = (r, w', f', idx')"
        using "1.prems"(2) body Inr Some e by (simp add: Load_loop.simps [of w f])
      have "w' = w1 \<and> same_handle f1 f'"
        using "1.IH" [OF body [symmetric] Inr Some e [symmetric] refl _ loop] nf "1.prems"(1)
        by simp
      with nf show ?thesis
        by (auto intro: same_handle_trans)
    qed
  qed
qed

lemma Load_loop_adds:
  "Load_loop w f (idx ++ d) =
     (case Load_loop w f d of (r, w', f', d') \<Rightarrow> (r, w', f', idx ++ d'))"
proof (induction w f d rule: Load_loop.induct)
  case (1 w f d)
  obtain x w1 f1 where body: "Load_body w f = (x, w1, f1)"
    by (cases "Load_body w f") auto
  show ?case
  proof (cases x)
    case (Inl e)
    with body show ?thesis
      by (simp add: Load_loop.simps [of w f])
  next
    case (Inr y)
    show ?thesis
    proof (cases y)
      case None
      with body Inr show ?thesis
        by (simp add: Load_loop.simps [of w f])
    next
      case (Some e)
      obtain key offset where e: "e = (key, offset)"
        by (cases e) auto
      have "Load_loop w1 f1 (idx ++ d(key \<mapsto> offset)) =
         (case Load_loop w1 f1 (d(key \<mapsto> offset)) of (r, w', f', d') \<Rightarrow> (r, w', f', idx ++ d'))"
        using "1.IH" [OF body [symmetric] Inr Some e [symmetric] refl] .
      with body Inr Some e show ?thesis
        by (simp add: Load_loop.simps [of w f])
    qed
  qed
qed

lemma Load_twice:
  assumes "faults w = []" "Load w b = (r, w1, b1)"
  shows "Load w1 b1 = (r, w1, b1)"
proof -
  obtain x w0 f0 where seek: "Seek 0 SeekStart w (bfile b) = (x, w0, f0)"
    by (cases "Seek 0 SeekStart w (bfile b)") auto
  note nf = Seek_nofault [OF assms(1) seek]
  show ?thesis
  proof (cases x)
    case (Inl e)
    with assms(2) seek nf have "r = Some e" "w1 = w" "b1 = b\<lparr>bfile := f0\<rparr>"
      by (simp_all add: Load_def)
    moreover have "Seek 0 SeekStart w f0 = (Inl e, w, f0)"
      using seek Inl nf assms(1)
      by (auto simp: Seek_def Let_def same_handle_def split: if_splits option.splits)
    ultimately show ?thesis
      by (simp add: Load_def)
  next
    case (Inr p)
    have f0: "f0 = (bfile b)\<lparr>fpos := 0\<rparr>" and ok: "\<not> fclosed (bfile b)"
      "files w (fname (bfile b)) \<noteq> None"
      using seek Inr assms(1)
      by (auto simp: Seek_def Let_def split: if_splits option.splits)
    obtain r' w' f' d where loop0: "Load_loop w f0 Map.empty = (r', w', f', d)"
      by (cases "Load_loop w f0 Map.empty") auto
    note lnf = Load_loop_nofault [OF assms(1) loop0]
    have loop: "Load_loop w f0 (idx ++ Map.empty) = (r', w, f', idx ++ d)" for idx
      unfolding Load_loop_adds [of w f0 idx Map.empty] using loop0 lnf by simp
    have first: "r = r'" "w1 = w" "b1 = b\<lparr>bfile := f', index := index b ++ d\<rparr>"
      using assms(2) seek Inr nf loop [of "index b"] by (simp_all add: Load_def)
    have "same_handle (bfile b) f'"
      using lnf nf by (auto intro: same_handle_trans)
    then have "f'\<lparr>fpos := 0\<rparr> = f0" and "\<not> fclosed f'" "files w (fname f') \<noteq> None"
      using ok by (simp_all add: f0 same_handle_def)
    then have seek2: "Seek 0 SeekStart w f' = (Inr 0, w, f0)"
      using assms(1) by (auto simp: Seek_def)
    have "(index b ++ d) ++ d = index b ++ d"
      by (rule ext) (simp add: map_add_def split: option.splits)
    with loop [of "index b ++ d"]
    have "Load_loop w f0 (index b ++ d) = (r', w, f', index b ++ d)"
      by simp
    with seek2 first show ?thesis
      by (simp add: Load_def)
  qed
qed

lemma Compact_read_ok:
  assumes "faults w = []" "\<not> fclosed f" "files w (fname f) = Some log"
    and "fpos f = off" "record_at log off"
  shows "Compact_read w f =
    ((timestamp_at log off, Uint32 (take 4 (drop (off + 12) log)), value_at log off), w,
     f\<lparr>fpos := off + 16 + keySize_at log off + valueSize_at log off\<rparr>)"
proof -
  have len: "off + 16 + keySize_at log off + valueSize_at log off \<le> length log"
    using assms(5) by (simp add: record_at_def)
  have r1: "ReadFull 8 w f = ((None, take 8 (drop off log)), w, f\<lparr>fpos := off + 8\<rparr>)"
    using assms len by (simp add: ReadFull_ok)
  have r2: "ReadFull 4 w (f\<lparr>fpos := off + 8\<rparr>)
      = ((None, take 4 (drop (off + 8) log)), w, f\<lparr>fpos := off + 12\<rparr>)"
    using assms len by (simp add: ReadFull_ok)
  have r3: "ReadFull 4 w (f\<lparr>fpos := off + 12\<rparr>)
      = ((None, take 4 (drop (off + 12) log)), w, f\<lparr>fpos := off + 16\<rparr>)"
    using assms len by (simp add: ReadFull_ok)
  have s4: "Seek (keySize_at log off) SeekCurrent w (f\<lparr>fpos := off + 16\<rparr>)
      = (Inr (off + 16 + keySize_at log off), w, f\<lparr>fpos := off + 16 + keySize_at log off\<rparr>)"
    using assms by (simp add: Seek_ok)
  have r5: "ReadFull (valueSize_at log off) w (f\<lparr>fpos := off + 16 + keySize_at log off\<rparr>)
      = ((None, value_at log off), w,
         f\<lparr>fpos := off + 16 + keySize_at log off + valueSize_at log off\<rparr>)"
    using assms len by (simp add: ReadFull_ok value_at_def)
  have l5: "length (value_at log off) = valueSize_at log off"
    using len by (simp add: value_at_def)
  show ?thesis
    unfolding Compact_read_def r1
    by (simp add: r2 r3 s4 r5 l5 timestamp_at_def
        keySize_at_def [symmetric] valueSize_at_def [symmetric])
qed

lemma Compact_write_ok:
  assumes "faults w = []" "\<not> fclosed t" "files w (fname t) = Some tlog"
  shows "Compact_write key ts vsz vb w t =
    (length tlog,
     w\<lparr>files := (files w)(fname t \<mapsto>
         tlog @ PutInt64 ts @ PutUint32 (word_of_nat (length key)) @ PutUint32 vsz @ key @ vb)\<rparr>,
     t\<lparr>fpos := length tlog + 16 + length key + length vb\<rparr>)"
  using assms by (simp add: Compact_write_def Seek_ok Write_ok add.assoc)

lemma rewritten_pair [simp]:
  "rewritten log (k, off) = (timestamp_at log off, k, value_at log off)"
  by (simp add: rewritten_def)

lemma length_value_at: "record_at log off \<Longrightarrow> length (value_at log off) = valueSize_at log off"
  by (simp add: record_at_def value_at_def)

lemma Compact_entry_ok:
  assumes "faults w = []" "\<not> fclosed f" "\<not> fclosed t" "fname f \<noteq> fname t"
    and "files w (fname f) = Some log" "files w (fname t) = Some tlog"
    and "record_at log off"
  shows "\<exists>f' t'. Seek off SeekStart w f = (Inr off, w, f\<lparr>fpos := off\<rparr>) \<and>
    Compact_read w (f\<lparr>fpos := off\<rparr>)
      = ((timestamp_at log off, Uint32 (take 4 (drop (off + 12) log)), value_at log off), w, f') \<and>
    Compact_write k (timestamp_at log off) (Uint32 (take 4 (drop (off + 12) log)))
        (value_at log off) w t
      = (length tlog,
         w\<lparr>files := (files w)(fname t \<mapsto>
             tlog @ encode (timestamp_at log off) k (value_at log off))\<rparr>, t') \<and>
    same_handle f f' \<and> same_handle t t'"
proof -
  have v: "word_of_nat (length (value_at log off)) = Uint32 (take 4 (drop (off + 12) log))"
    using assms(7) by (simp add: length_value_at valueSize_at_def)
  have "Compact_read w (f\<lparr>fpos := off\<rparr>)
      = ((timestamp_at log off, Uint32 (take 4 (drop (off + 12) log)), value_at log off), w,
         f\<lparr>fpos := off + 16 + keySize_at log off + valueSize_at log off\<rparr>)"
    using Compact_read_ok [of w "f\<lparr>fpos := off\<rparr>" log off] assms by simp
  moreover have "Compact_write k (timestamp_at log off) (Uint32 (take 4 (drop (off + 12) log)))
        (value_at log off) w t
      = (length tlog,
         w\<lparr>files := (files w)(fname t \<mapsto>
             tlog @ encode (timestamp_at log off) k (value_at log off))\<rparr>,
         t\<lparr>fpos := length tlog + 16 + length k + length (value_at log off)\<rparr>)"
    using assms by (simp add: Compact_write_ok encode_def header_def v)
  ultimately show ?thesis
    using assms by (simp add: Seek_ok same_handle_def)
qed

lemma Compact_loop_ok:
  assumes "faults w = []" "\<not> fclosed f" "\<not> fclosed t" "fname f \<noteq> fname t"
    and "files w (fname f) = Some log" "files w (fname t) = Some tlog"
    and "\<forall>e\<in>set pairs. record_at log (snd e)"
  shows "\<exists>f' t'. Compact_loop pairs tp w f t ni =
      (None, w\<lparr>files := (files w)(fname t \<mapsto> tlog @ encode_all (map (rewritten log) pairs))\<rparr>,
       f', t', index_from (length tlog) (map (rewritten log) pairs) ni) \<and>
    same_handle f f' \<and> same_handle t t'"
  using assms
proof (induction pairs arbitrary: w f t ni tlog)
  case Nil
  have "(files w)(fname t \<mapsto> tlog) = files w"
    using Nil.prems(6) by (simp add: map_upd_triv)
  then show ?case by simp
next
  case (Cons e pairs)
  obtain k off where e: "e = (k, off)"
    by (cases e) auto
  let ?ts = "timestamp_at log off" and ?v = "value_at log off"
  let ?w1 = "w\<lparr>files := (files w)(fname t \<mapsto> tlog @ encode ?ts k ?v)\<rparr>"
  have rec: "record_at log off"
    using Cons.prems(7) e by simp
  from Compact_entry_ok [OF Cons.prems(1-6) rec, of k]
  obtain f1 t1 where
    sk: "Seek off SeekStart w f = (Inr off, w, f\<lparr>fpos := off\<rparr>)" and
    rd: "Compact_read w (f\<lparr>fpos := off\<rparr>)
      = ((?ts, Uint32 (take 4 (drop (off + 12) log)), ?v), w, f1)" and
    wr: "Compact_write k ?ts (Uint32 (take 4 (drop (off + 12) log))) ?v w t
      = (length tlog, ?w1, t1)" and
    h: "same_handle f f1" "same_handle t t1"
    by blast
  have step: "Compact_loop (e # pairs) tp w f t ni
      = Compact_loop pairs tp ?w1 f1 t1 (ni(k \<mapsto> length tlog))"
    by (simp add: e sk rd wr)
  have pre: "faults ?w1 = []" "\<not> fclosed f1" "\<not> fclosed t1" "fname f1 \<noteq> fname t1"
    "files ?w1 (fname f1) = Some log" "files ?w1 (fname t1) = Some (tlog @ encode ?ts k ?v)"
    "\<forall>e\<in>set pairs. record_at log (snd e)"
    using Cons.prems h by (simp_all add: same_handle_def)
  from Cons.IH [OF pre, of "ni(k \<mapsto> length tlog)"]
  obtain f' t' where
    loop: "Compact_loop pairs tp ?w1 f1 t1 (ni(k \<mapsto> length tlog)) =
      (None,
       ?w1\<lparr>files := (files ?w1)(fname t1 \<mapsto>
           (tlog @ encode ?ts k ?v) @ encode_all (map (rewritten log) pairs))\<rparr>,
       f', t',
       index_from (length (tlog @ encode ?ts k ?v)) (map (rewritten log) pairs)
         (ni(k \<mapsto> length tlog)))" and
    h': "same_handle f1 f'" "same_handle t1 t'"
    by blast
  have hs: "same_handle f f'" "same_handle t t'"
    using h h' by (auto intro: same_handle_trans)
  have t1: "fname t1 = fname t"
    using h by (simp add: same_handle_def)
  have weq: "?w1\<lparr>files := (files ?w1)(fname t1 \<mapsto>
           (tlog @ encode ?ts k ?v) @ encode_all (map (rewritten log) pairs))\<rparr>
      = w\<lparr>files := (files w)(fname t \<mapsto>
           tlog @ encode_all (map (rewritten log) (e # pairs)))\<rparr>"
    by (cases w) (simp add: t1 e)
  have "Compact_loop (e # pairs) tp w f t ni =
      (None, w\<lparr>files := (files w)(fname t \<mapsto>
           tlog @ encode_all (map (rewritten log) (e # pairs)))\<rparr>,
       f', t', index_from (length tlog) (map (rewritten log) (e # pairs)) ni)"
    unfolding step loop weq by (simp add: e)
  with hs show ?case
    by blast
qed

lemma CloseFile_ok:
  "\<lbrakk>faults w = []; \<not> fclosed f\<rbrakk> \<Longrightarrow> CloseFile w f = (None, w, f\<lparr>fclosed := True\<rparr>)"
  by (simp add: CloseFile_def)

lemma Compact_ok:
  assumes "open_on w b log" "faults w = []"
    and "\<forall>e\<in>set (range_map order (index b)). record_at log (snd e)"
  shows "\<exists>w'. Compact order w b =
      (None, w',
       b\<lparr>bfile := \<lparr>fname = path b, fpos = 0, fappend = True, fclosed = False\<rparr>,
         index := index_from 0 (map (rewritten log) (range_map order (index b))) Map.empty\<rparr>) \<and>
    files w' = ((files w)(path b \<mapsto>
        encode_all (map (rewritten log) (range_map order (index b)))))(path b @ ''.tmp'' := None) \<and>
    faults w' = []"
proof -
  let ?tmp = "path b @ ''.tmp''"
  let ?recs = "map (rewritten log) (range_map order (index b))"
  let ?t = "\<lparr>fname = ?tmp, fpos = 0, fappend = False, fclosed = False\<rparr>"
  let ?new = "\<lparr>fname = path b, fpos = 0, fappend = True, fclosed = False\<rparr>"
  define w0 where "w0 = w\<lparr>files := (files w)(?tmp \<mapsto> [])\<rparr>"
  define w2 where "w2 = w0\<lparr>files := (files w0)(fname ?t \<mapsto> [] @ encode_all ?recs)\<rparr>"
  define w5 where "w5 = w2\<lparr>files := ((files w2)(path b \<mapsto> encode_all ?recs))(?tmp := None)\<rparr>"
  define w6 where "w6 = w5\<lparr>files := (files w5)(path b \<mapsto> encode_all ?recs)\<rparr>"
  have nf: "faults w0 = []" "faults w2 = []" "faults w5 = []" "faults w6 = []"
    using assms(2) by (simp_all add: w0_def w2_def w5_def w6_def)
  have op: "OpenFile ?tmp True False w = (Inr ?t, w0)"
    using assms(2) by (simp add: OpenFile_def w0_def)
  have pre: "\<not> fclosed (bfile b)" "\<not> fclosed ?t" "fname (bfile b) \<noteq> fname ?t"
    "files w0 (fname (bfile b)) = Some log" "files w0 (fname ?t) = Some []"
    using assms(1) by (simp_all add: open_on_def w0_def)
  from Compact_loop_ok [OF nf(1) pre assms(3), of ?tmp Map.empty]
  obtain f' t' where
    loop: "Compact_loop (range_map order (index b)) ?tmp w0 (bfile b) ?t Map.empty
      = (None, w2, f', t', index_from 0 ?recs Map.empty)" and
    h: "same_handle (bfile b) f'" "same_handle ?t t'"
    unfolding w2_def by auto
  have open': "\<not> fclosed f'" "\<not> fclosed t'"
    using h assms(1) by (simp_all add: same_handle_def open_on_def)
  have c1: "CloseFile w2 f' = (None, w2, f'\<lparr>fclosed := True\<rparr>)"
    using open' nf by (simp add: CloseFile_ok)
  have c2: "CloseFile w2 t' = (None, w2, t'\<lparr>fclosed := True\<rparr>)"
    using open' nf by (simp add: CloseFile_ok)
  have "files w2 ?tmp = Some (encode_all ?recs)"
    by (simp add: w2_def)
  then have rn: "Rename ?tmp (path b) w2 = (None, w5)"
    using nf by (simp add: Rename_def w5_def)
  have "files w5 (path b) = Some (encode_all ?recs)"
    by (simp add: w5_def)
  then have op2: "OpenFile (path b) False True w5 = (Inr ?new, w6)"
    using nf by (simp add: OpenFile_def w6_def)
  have res: "Compact order w b =
      (None, w6, b\<lparr>bfile := ?new, index := index_from 0 ?recs Map.empty\<rparr>)"
    unfolding Compact_def Let_def op
    by (simp add: loop c1 c2 rn op2)
  have fl: "files w6 = ((files w)(path b \<mapsto> encode_all ?recs))(?tmp := None)"
    by (rule ext) (simp add: w0_def w2_def w5_def w6_def)
  show ?thesis
    using res fl nf by blast
qed

lemma rkey_simp [simp]: "rkey (ts, k, v) = k"
  by (simp add: rkey_def)

lemma latest_value_simps [simp]:
  "latest_value [] = Map.empty"
  "latest_value (rs @ [(ts, k, v)]) = (latest_value rs)(k \<mapsto> v)"
  by (simp_all add: latest_value_def)

lemma index_from_snoc_lookup:
  "index_from 0 (rs @ [(ts, k, v)]) Map.empty k' =
     (if k' = k then Some (length (encode_all rs)) else index_from 0 rs Map.empty k')"
  by (simp add: index_from_snoc)

lemma is_latest_iff: "is_latest rs k off \<longleftrightarrow> index_from 0 rs Map.empty k = Some off"
proof (induction rs arbitrary: off rule: rev_induct)
  case Nil
  show ?case by (simp add: is_latest_def)
next
  case (snoc r rs)
  obtain ts k' v where r: "r = (ts, k', v)"
    by (cases r) auto
  show ?case
  proof (cases "k = k'")
    case True
    have "is_latest (rs @ [r]) k off \<longleftrightarrow> off = length (encode_all rs)"
    proof
      assume "is_latest (rs @ [r]) k off"
      then obtain i where i: "i < length (rs @ [r])" "off = length (encode_all (take i (rs @ [r])))"
        "\<forall>j<length (rs @ [r]). rkey ((rs @ [r]) ! j) = k \<longrightarrow> j \<le> i"
        by (auto simp: is_latest_def)
      from i(3) [rule_format, of "length rs"] True r have "length rs \<le> i"
        by simp
      with i(1) have "i = length rs" by simp
      with i(2) show "off = length (encode_all rs)" by simp
    next
      assume "off = length (encode_all rs)"
      then show "is_latest (rs @ [r]) k off"
        using True r by (auto simp: is_latest_def intro!: exI [of _ "length rs"])
    qed
    with True r show ?thesis
      by (auto simp: index_from_snoc_lookup)
  next
    case False
    have "is_latest (rs @ [r]) k off \<longleftrightarrow> is_latest rs k off"
    proof
      assume "is_latest (rs @ [r]) k off"
      then obtain i where i: "i < length (rs @ [r])" "off = length (encode_all (take i (rs @ [r])))"
        "rkey ((rs @ [r]) ! i) = k"
        "\<forall>j<length (rs @ [r]). rkey ((rs @ [r]) ! j) = k \<longrightarrow> j \<le> i"
        by (auto simp: is_latest_def)
      have "i \<noteq> length rs"
        using i(3) False r by auto
      with i(1) have il: "i < length rs" by simp
      have "\<forall>j<length rs. rkey (rs ! j) = k \<longrightarrow> j \<le> i"
      proof (intro allI impI)
        fix j assume "j < length rs" "rkey (rs ! j) = k"
        with i(4) [rule_format, of j] show "j \<le> i"
          by (simp add: nth_append)
      qed
      with il i(2,3) show "is_latest rs k off"
        by (auto simp: is_latest_def nth_append intro!: exI [of _ i])
    next
      assume "is_latest rs k off"
      then obtain i where i: "i < length rs" "off = length (encode_all (take i rs))"
        "rkey (rs ! i) = k" "\<forall>j<length rs. rkey (rs ! j) = k \<longrightarrow> j \<le> i"
        by (auto simp: is_latest_def)
      have "\<forall>j<length (rs @ [r]). rkey ((rs @ [r]) ! j) = k \<longrightarrow> j \<le> i"
      proof (intro allI impI)
        fix j assume j: "j < length (rs @ [r])" "rkey ((rs @ [r]) ! j) = k"
        then have "j \<noteq> length rs"
          using False r by auto
        with j i(4) show "j \<le> i"
          by (auto simp: nth_append less_Suc_eq)
      qed
      with i(1,2,3) show "is_latest (rs @ [r]) k off"
        by (auto simp: is_latest_def nth_append intro!: exI [of _ i])
    qed
    with False r snoc.IH show ?thesis
      by (simp add: index_from_snoc_lookup)
  qed
qed

lemma index_from_located:
  "index_from 0 rs Map.empty k = Some off \<Longrightarrow>
   \<exists>ts v pre post. encode_all rs = pre @ encode ts k v @ post \<and> length pre = off \<and>
     latest_value rs k = Some v \<and> (ts, k, v) \<in> set rs"
proof (induction rs arbitrary: off rule: rev_induct)
  case Nil
  then show ?case by simp
next
  case (snoc r rs)
  obtain ts k' v where r: "r = (ts, k', v)"
    by (cases r) auto
  show ?case
  proof (cases "k = k'")
    case True
    with snoc.prems r have "off = length (encode_all rs)"
      by (simp add: index_from_snoc_lookup)
    then have "encode_all (rs @ [r]) = encode_all rs @ encode ts k v @ []"
      "length (encode_all rs) = off" "latest_value (rs @ [r]) k = Some v"
      "(ts, k, v) \<in> set (rs @ [r])"
      using True r by simp_all
    then show ?thesis
      by blast
  next
    case False
    with snoc.prems r have "index_from 0 rs Map.empty k = Some off"
      by (simp add: index_from_snoc_lookup)
    from snoc.IH [OF this] obtain ts' v' pre post where
      "encode_all rs = pre @ encode ts' k v' @ post" "length pre = off"
      "latest_value rs k = Some v'" "(ts', k, v') \<in> set rs"
      by blast
    then have "encode_all (rs @ [r]) = pre @ encode ts' k v' @ (post @ encode ts k' v)"
      "length pre = off" "latest_value (rs @ [r]) k = Some v'" "(ts', k, v') \<in> set (rs @ [r])"
      using False r by simp_all
    then show ?thesis
      by blast
  qed
qed

lemma dom_index_from: "dom (index_from off rs m) = dom m \<union> rkey ` set rs"
proof (induction rs arbitrary: off m)
  case Nil
  show ?case by simp
next
  case (Cons r rs)
  obtain ts k v where r: "r = (ts, k, v)"
    by (cases r) auto
  have "dom (index_from off (r # rs) m)
      = dom (index_from (off + length (encode ts k v)) rs (m(k \<mapsto> off)))"
    by (simp add: r)
  also have "\<dots> = dom (m(k \<mapsto> off)) \<union> rkey ` set rs"
    by (rule Cons.IH)
  also have "\<dots> = dom m \<union> rkey ` set (r # rs)"
    by (auto simp: r)
  finally show ?case .
qed

lemma timestamp_at_encode:
  "timestamp_at (pre @ encode ts k v @ post) (length pre) = ts"
  by (simp add: timestamp_at_def encode_def)

lemma fits32_mem: "\<forall>r\<in>set rs. fits32 r \<Longrightarrow> (ts, k, v) \<in> set rs \<Longrightarrow>
    length k < 2 ^ 32 \<and> length v < 2 ^ 32"
  by (auto simp: fits32_def)

lemma entry_record:
  assumes "\<forall>r\<in>set rs. fits32 r" "index_from 0 rs Map.empty k = Some off"
  shows "record_at (encode_all rs) off"
    and "latest_value rs k = Some (value_at (encode_all rs) off)"
    and "fits32 (rewritten (encode_all rs) (k, off))"
proof -
  from index_from_located [OF assms(2)] obtain ts v pre post where
    l: "encode_all rs = pre @ encode ts k v @ post" "length pre = off"
    "latest_value rs k = Some v" "(ts, k, v) \<in> set rs"
    by blast
  from fits32_mem [OF assms(1) l(4)] have fit: "length k < 2 ^ 32" "length v < 2 ^ 32"
    by simp_all
  have v: "value_at (encode_all rs) off = v"
    unfolding l(1) l(2) [symmetric] using fit by (rule value_at_encode)
  show "record_at (encode_all rs) off"
    unfolding l(1) l(2) [symmetric] using fit by (rule record_at_encode)
  show "latest_value rs k = Some (value_at (encode_all rs) off)"
    using l(3) v by simp
  show "fits32 (rewritten (encode_all rs) (k, off))"
    using fit v by (simp add: fits32_def)
qed

lemma in_range_map: "(k, v) \<in> set (range_map order m) \<longleftrightarrow> k \<in> set order \<and> m k = Some v"
  by (auto simp: range_map_def split: option.splits)

lemma map_fst_range_map: "map fst (range_map order m) = filter (\<lambda>k. m k \<noteq> None) order"
  by (induction order) (auto simp: range_map_def split: option.splits)

lemma set_keys_range_map:
  assumes "range_order order m"
  shows "fst ` set (range_map order m) = dom m"
proof
  show "fst ` set (range_map order m) \<subseteq> dom m"
    by (auto simp: in_range_map)
next
  note ro = assms
  show "dom m \<subseteq> fst ` set (range_map order m)"
  proof
    fix k assume "k \<in> dom m"
    then obtain v where "m k = Some v" by auto
    moreover from \<open>k \<in> dom m\<close> ro have "k \<in> set order"
      by (auto simp: range_order_def)
    ultimately have "(k, v) \<in> set (range_map order m)"
      by (simp add: in_range_map)
    then show "k \<in> fst ` set (range_map order m)"
      by force
  qed
qed

lemma distinct_range_map: "range_order order m \<Longrightarrow> distinct (map fst (range_map order m))"
  by (simp add: map_fst_range_map range_order_def)

lemma rkey_rewritten [simp]: "rkey (rewritten log e) = fst e"
  by (cases e) simp

lemma map_le_index_inv: "index_inv rs idx \<longleftrightarrow> idx \<subseteq>\<^sub>m index_from 0 rs Map.empty"
  by (auto simp: index_inv_def is_latest_iff map_le_def dom_def)

lemma Compact_store:
  assumes "open_on w b (encode_all rs)" "\<forall>r\<in>set rs. fits32 r" "index_inv rs (index b)"
    and "faults w = []"
  shows "\<exists>w' b'. Compact order w b = (None, w', b') \<and>
    open_on w' b' (encode_all (map (rewritten (encode_all rs)) (range_map order (index b)))) \<and>
    faults w' = [] \<and> path b' = path b \<and>
    index b' = index_from 0 (map (rewritten (encode_all rs)) (range_map order (index b))) Map.empty \<and>
    (\<forall>r\<in>set (map (rewritten (encode_all rs)) (range_map order (index b))). fits32 r)"
proof -
  let ?log = "encode_all rs"
  let ?pairs = "range_map order (index b)"
  have entry: "index_from 0 rs Map.empty k = Some off" if "(k, off) \<in> set ?pairs" for k off
    using that assms(3) by (simp add: in_range_map index_inv_def is_latest_iff)
  have rec: "\<forall>e\<in>set ?pairs. record_at ?log (snd e)"
  proof
    fix e assume "e \<in> set ?pairs"
    then have "(fst e, snd e) \<in> set ?pairs" by simp
    from entry [OF this] show "record_at ?log (snd e)"
      by (rule entry_record(1) [OF assms(2)])
  qed
  have fit: "\<forall>r\<in>set (map (rewritten ?log) ?pairs). fits32 r"
  proof
    fix r assume "r \<in> set (map (rewritten ?log) ?pairs)"
    then obtain k off where e: "(k, off) \<in> set ?pairs" "r = rewritten ?log (k, off)"
      by auto
    from entry [OF e(1)] show "fits32 r"
      unfolding e(2) by (rule entry_record(3) [OF assms(2)])
  qed
  from Compact_ok [OF assms(1,4) rec] obtain w' where
    c: "Compact order w b =
      (None, w',
       b\<lparr>bfile := \<lparr>fname = path b, fpos = 0, fappend = True, fclosed = False\<rparr>,
         index := index_from 0 (map (rewritten ?log) ?pairs) Map.empty\<rparr>)"
    "files w' = ((files w)(path b \<mapsto> encode_all (map (rewritten ?log) ?pairs)))
        (path b @ ''.tmp'' := None)"
    "faults w' = []"
    by blast
  show ?thesis
    using c fit by (simp add: open_on_def)
qed

lemma index_from_add: "index_from off rs m = m ++ index_from off rs Map.empty"
proof (induction rs arbitrary: off m)
  case Nil
  show ?case by simp
next
  case (Cons r rs)
  obtain ts k v where r: "r = (ts, k, v)"
    by (cases r) auto
  let ?o = "off + length (encode ts k v)"
  have "index_from off (r # rs) m = index_from ?o rs (m(k \<mapsto> off))"
    by (simp add: r)
  also have "\<dots> = m(k \<mapsto> off) ++ index_from ?o rs Map.empty"
    by (rule Cons.IH)
  also have "\<dots> = m ++ ([k \<mapsto> off] ++ index_from ?o rs Map.empty)"
    by (rule ext) (simp add: map_add_def split: option.splits)
  also have "[k \<mapsto> off] ++ index_from ?o rs Map.empty = index_from ?o rs [k \<mapsto> off]"
    by (rule Cons.IH [symmetric])
  also have "\<dots> = index_from off (r # rs) Map.empty"
    by (simp add: r)
  finally show ?case .
qed

lemma map_le_add_absorb: "m \<subseteq>\<^sub>m n \<Longrightarrow> m ++ n = n"
  by (rule ext) (auto simp: map_add_def map_le_def dom_def split: option.splits)

lemma index_inv_self: "index_inv rs (index_from 0 rs Map.empty)"
  by (simp add: map_le_index_inv)

lemma Set_store:
  assumes "store_inv w b rs" "faults w = []" "fits32 (ts, key, val)"
  shows "\<exists>w' b'. Set key val ts w b = (None, w', b') \<and> store_inv w' b' (rs @ [(ts, key, val)]) \<and>
    faults w' = []"
proof -
  obtain r w' b' where s: "Set key val ts w b = (r, w', b')"
    by (cases "Set key val ts w b") auto
  have op: "open_on w b (encode_all rs)"
    using assms(1) by (simp add: store_inv_def)
  note st = Set_ok_state [OF op assms(2) s]
  have "index b \<subseteq>\<^sub>m index_from 0 rs Map.empty"
    using assms(1) by (simp add: store_inv_def map_le_index_inv)
  then have "(index b)(key \<mapsto> length (encode_all rs))
      \<subseteq>\<^sub>m (index_from 0 rs Map.empty)(key \<mapsto> length (encode_all rs))"
    by (auto simp: map_le_def)
  then have "index_inv (rs @ [(ts, key, val)]) (index b')"
    by (simp add: map_le_index_inv index_from_snoc st(4))
  with st s assms(1,3) show ?thesis
    by (simp add: store_inv_def)
qed

lemma Load_store:
  assumes "store_inv w b rs" "faults w = []"
  shows "\<exists>b'. Load w b = (None, w, b') \<and> store_inv w b' rs \<and>
    index b' = index_from 0 rs Map.empty"
proof -
  have op: "open_on w b (encode_all rs)" and fit: "\<forall>r\<in>set rs. fits32 r"
    and le: "index b \<subseteq>\<^sub>m index_from 0 rs Map.empty"
    using assms(1) by (simp_all add: store_inv_def map_le_index_inv)
  have "index_from 0 rs (index b) = index_from 0 rs Map.empty"
    using index_from_add [of 0 rs "index b"] le by (simp add: map_le_add_absorb)
  with Load_ok [OF op assms(2) fit] op fit show ?thesis
    by (simp add: store_inv_def open_on_def index_inv_self)
qed

lemma store_inv_example:
  "store_inv (world_with (encode 1 ''k'' ''a'') []) (engine_with [''k'' \<mapsto> 0]) [(1, ''k'', ''a'')]"
  by (simp add: store_inv_def fits32_def index_inv_def is_latest_iff)

lemma length_encode_all:
  "length (encode_all rs) = (\<Sum>r\<leftarrow>rs. 16 + length (rkey r) + length (snd (snd r)))"
  by (induction rs) auto

lemma latest_value_key: "latest_value rs k = Some v \<Longrightarrow> k \<in> rkey ` set rs"
  by (auto simp: latest_value_def rkey_def dest!: map_of_SomeD) force

lemma latest_sizes_le:
  "(\<Sum>k\<in>rkey ` set rs. 16 + length k + length (the (latest_value rs k))) \<le> length (encode_all rs)"
proof (induction rs rule: rev_induct)
  case Nil
  show ?case by simp
next
  case (snoc r rs)
  obtain ts k v where r: "r = (ts, k, v)"
    by (cases r) auto
  let ?K = "rkey ` set rs"
  let ?g = "\<lambda>k. 16 + length k + length (the (latest_value rs k))"
  let ?g' = "\<lambda>k. 16 + length k + length (the (latest_value (rs @ [r]) k))"
  have "sum ?g' (rkey ` set (rs @ [r])) = sum ?g' (insert k ?K)"
    by (simp add: r)
  also have "\<dots> = ?g' k + sum ?g' (?K - {k})"
    by (simp add: sum.insert_remove)
  also have "sum ?g' (?K - {k}) = sum ?g (?K - {k})"
    by (rule sum.cong) (auto simp: r)
  also have "sum ?g (?K - {k}) \<le> sum ?g ?K"
    by (rule sum_mono2) auto
  also have "?g' k = length (encode ts k v)"
    by (simp add: r)
  finally have "sum ?g' (rkey ` set (rs @ [r])) \<le> length (encode ts k v) + sum ?g ?K"
    by simp
  with snoc.IH show ?case
    by (simp add: r)
qed

lemma sizes_at_encode_general:
  "keySize_at (pre @ encode ts k v @ post) (length pre) = length k mod 2 ^ 32"
  "valueSize_at (pre @ encode ts k v @ post) (length pre) = length v mod 2 ^ 32"
  by (simp_all add: keySize_at_def valueSize_at_def encode_def unat_of_nat)

lemma Set_Get_empty_value:
  assumes "open_on w b log" "faults w = []" "Set k [] ts w b = (r, w1, b1)"
  shows "Get k w1 b1 = (Inr [], w1)"
proof -
  note st = Set_ok_state [OF assms]
  let ?log = "log @ encode ts k []"
  have op: "open_on w1 b1 ?log"
    using st(2) by simp
  have ix: "index b1 k = Some (length log)"
    using st(4) by simp
  have vs: "valueSize_at ?log (length log) = 0"
    using sizes_at_encode_general(2) [of log ts k "[]" "[]"] by simp
  have "keySize_at ?log (length log) \<le> length k"
    using sizes_at_encode_general(1) [of log ts k "[]" "[]"] by simp
  then have rec: "record_at ?log (length log)"
    unfolding record_at_def vs by simp
  have "value_at ?log (length log) = []"
    unfolding value_at_def vs by simp
  with Get_ok [OF op st(3) ix rec] show ?thesis
    by simp
qed

section \<open>The claims\<close>

text \<open>
  Claim C1. On an open engine with no fault planned, for a key and a value whose
  lengths fit the 32-bit length fields of the record (the invariant of a record in
  section 3 of the specification), \<^verbatim>\<open>Set\<close> succeeds and the \<^verbatim>\<open>Get\<close> of the key that follows
  returns exactly the value. A \<^verbatim>\<open>Set\<close> of any other key in between, which is no mutation
  of this key, changes nothing in that.
\<close>

theorem Set_then_Get_round_trip:
  assumes "open_on w b log" "faults w = []" "length key < 2 ^ 32" "length val < 2 ^ 32"
  shows "\<exists>w1 b1. Set key val ts w b = (None, w1, b1) \<and> fst (Get key w1 b1) = Inr val \<and>
    (\<forall>k2 v2 t2. k2 \<noteq> key \<longrightarrow>
       (\<exists>w2 b2. Set k2 v2 t2 w1 b1 = (None, w2, b2) \<and> fst (Get key w2 b2) = Inr val))"
proof -
  obtain r w1 b1 where s: "Set key val ts w b = (r, w1, b1)"
    by (cases "Set key val ts w b") auto
  note first = Set_Get [OF assms s]
  have "\<exists>w2 b2. Set k2 v2 t2 w1 b1 = (None, w2, b2) \<and> fst (Get key w2 b2) = Inr val"
    if "k2 \<noteq> key" for k2 v2 t2
  proof -
    obtain r2 w2 b2 where s2: "Set k2 v2 t2 w1 b1 = (r2, w2, b2)"
      by (cases "Set k2 v2 t2 w1 b1") auto
    from Set_Set_Get [OF assms s s2 that] s2 show ?thesis
      by simp
  qed
  with s first show ?thesis
    by simp
qed

text \<open>
  The claim at work on a new store, with the key and the value of the README.
\<close>

theorem Set_then_Get_round_trip_witness:
  "\<exists>w1 b1. Set ''name'' ''alice'' 0 (world_with [] []) (engine_with Map.empty) = (None, w1, b1) \<and>
     fst (Get ''name'' w1 b1) = Inr ''alice'' \<and>
     (\<forall>k2 v2 t2. k2 \<noteq> ''name'' \<longrightarrow>
       (\<exists>w2 b2. Set k2 v2 t2 w1 b1 = (None, w2, b2) \<and> fst (Get ''name'' w2 b2) = Inr ''alice''))"
  using Set_then_Get_round_trip
    [of "world_with [] []" "engine_with Map.empty" "[]" "''name''" "''alice''" 0]
  by simp

text \<open>
  Claim C2. The store is open, no fault is planned and the length of the key fits 32
  bits (the invariant of a record in section 3 of the specification). After
  \<^verbatim>\<open>Set(k, "a")\<close> and \<^verbatim>\<open>Set(k, "b")\<close>, which succeed, \<^verbatim>\<open>Get(k)\<close> returns \<^verbatim>\<open>"b"\<close>. When the log
  before the two writes was a sequence of whole records, \<^verbatim>\<open>Close\<close>, \<^verbatim>\<open>Open\<close> on the same path
  and \<^verbatim>\<open>Load\<close> succeed, and \<^verbatim>\<open>Get(k)\<close> still returns \<^verbatim>\<open>"b"\<close>. The timestamps \<open>ta\<close> and \<open>tb\<close>
  are arbitrary: the later position in the log wins, not the later time.
\<close>

theorem last_write_wins:
  assumes "open_on w b log" "faults w = []" "length k < 2 ^ 32"
  shows "\<exists>w1 b1 w2 b2.
    Set k ''a'' ta w b = (None, w1, b1) \<and> Set k ''b'' tb w1 b1 = (None, w2, b2) \<and>
    fst (Get k w2 b2) = Inr ''b'' \<and>
    (log = encode_all rs \<and> (\<forall>r\<in>set rs. fits32 r) \<longrightarrow>
       (\<exists>w3 b3. reopen w2 b2 = (None, w3, b3) \<and> fst (Get k w3 b3) = Inr ''b''))"
proof -
  obtain r1 w1 b1 where s1: "Set k ''a'' ta w b = (r1, w1, b1)"
    by (cases "Set k ''a'' ta w b") auto
  note st1 = Set_ok_state [OF assms(1,2) s1]
  obtain r2 w2 b2 where s2: "Set k ''b'' tb w1 b1 = (r2, w2, b2)"
    by (cases "Set k ''b'' tb w1 b1") auto
  note st2 = Set_ok_state [OF st1(2,3) s2]
  have g: "Get k w2 b2 = (Inr ''b'', w2)"
    using Set_Get [OF st1(2,3) assms(3) _ s2] by simp
  have "\<exists>w3 b3. reopen w2 b2 = (None, w3, b3) \<and> fst (Get k w3 b3) = Inr ''b''"
    if wf: "log = encode_all rs" "\<forall>r\<in>set rs. fits32 r"
  proof -
    obtain r3 w3 b3 where ro: "reopen w2 b2 = (r3, w3, b3)"
      by (cases "reopen w2 b2") auto
    have log2: "open_on w2 b2 (encode_all ((rs @ [(ta, k, ''a'')]) @ [(tb, k, ''b'')]))"
      using st2(2) wf(1) by simp
    have fit: "\<forall>r\<in>set (rs @ [(ta, k, ''a'')]). fits32 r"
      using wf(2) assms(3) by (simp add: fits32_def)
    have "r3 = None" "Get k w3 b3 = (Inr ''b'', w3)"
      using Get_reopen [OF log2 st2(3) fit assms(3) _ ro] by simp_all
    with ro show ?thesis
      by simp
  qed
  with s1 s2 st1(1) st2(1) g show ?thesis
    by simp
qed

text \<open>
  The claim at work on a new store.
\<close>

theorem last_write_wins_witness:
  "\<exists>w1 b1 w2 b2.
    Set ''k'' ''a'' 1 (world_with [] []) (engine_with Map.empty) = (None, w1, b1) \<and>
    Set ''k'' ''b'' 2 w1 b1 = (None, w2, b2) \<and>
    fst (Get ''k'' w2 b2) = Inr ''b'' \<and>
    (\<exists>w3 b3. reopen w2 b2 = (None, w3, b3) \<and> fst (Get ''k'' w3 b3) = Inr ''b'')"
  using last_write_wins [of "world_with [] []" "engine_with Map.empty" "[]" "''k''" 1 2 "[]"]
  by simp

text \<open>
  Claim C3 says that \<^verbatim>\<open>Load\<close> fails on every log that ends before the declared key or
  value length of a record is satisfied, and that the partial record never enters the
  index. \<^verbatim>\<open>Load\<close> does fail when the header or the key is cut short, since it reads them.
  It does not read the value: it skips it with \<^verbatim>\<open>Seek\<close> (line 130), and a seek past the
  end of a file succeeds. Here the log is the first 19 bytes of the 22-byte record with
  key \<^verbatim>\<open>k\<close> and value \<^verbatim>\<open>hello\<close>: \<^verbatim>\<open>Load\<close> returns \<^verbatim>\<open>nil\<close>, the index sends \<^verbatim>\<open>k\<close> to the
  partial record at offset 0, and the \<^verbatim>\<open>Get\<close> that follows fails with \<open>EOF\<close>.
\<close>

theorem Load_accepts_torn_value:
  "fst (Load (world_with (take 19 (encode 7 ''k'' ''hello'')) []) (engine_with Map.empty)) = None \<and>
   index (snd (snd (Load (world_with (take 19 (encode 7 ''k'' ''hello'')) [])
     (engine_with Map.empty)))) ''k'' = Some 0 \<and>
   fst (Get ''k''
     (fst (snd (Load (world_with (take 19 (encode 7 ''k'' ''hello'')) []) (engine_with Map.empty))))
     (snd (snd (Load (world_with (take 19 (encode 7 ''k'' ''hello'')) []) (engine_with Map.empty)))))
     = Inl EOF"
  by code_simp

text \<open>
  Claim C4 says that \<^verbatim>\<open>Compact\<close> returns the error, and leaves the log and the index as
  they were, when a step before the rename fails. The source does so when the
  temporary file cannot be opened and when the \<^verbatim>\<open>Seek\<close> on the old log fails (lines
  154-158). It drops the errors of all the reads and writes of lines 162-175. Here
  the store holds one record, \<^verbatim>\<open>k\<close> with value \<^verbatim>\<open>hello\<close>, which \<^verbatim>\<open>Get\<close> returns, and the
  thirteenth call to the operating system, the write of the value to the temporary
  file, fails without writing a byte: \<^verbatim>\<open>Compact\<close> returns \<^verbatim>\<open>nil\<close>, the log is replaced by
  the 17 bytes of the header and the key, and \<^verbatim>\<open>Get\<close> fails with \<open>EOF\<close>.
\<close>

theorem Compact_drops_failed_write:
  "fst (Get ''k'' (world_with (encode 7 ''k'' ''hello'') []) (engine_with [''k'' \<mapsto> 0]))
     = Inr ''hello'' \<and>
   fst (Compact [''k''] (world_with (encode 7 ''k'' ''hello'') (replicate 12 None @ [Some 0]))
     (engine_with [''k'' \<mapsto> 0])) = None \<and>
   files (fst (snd (Compact [''k'']
     (world_with (encode 7 ''k'' ''hello'') (replicate 12 None @ [Some 0]))
     (engine_with [''k'' \<mapsto> 0])))) ''db'' = Some (take 17 (encode 7 ''k'' ''hello'')) \<and>
   fst (Get ''k''
     (fst (snd (Compact [''k'']
       (world_with (encode 7 ''k'' ''hello'') (replicate 12 None @ [Some 0]))
       (engine_with [''k'' \<mapsto> 0]))))
     (snd (snd (Compact [''k'']
       (world_with (encode 7 ''k'' ''hello'') (replicate 12 None @ [Some 0]))
       (engine_with [''k'' \<mapsto> 0]))))) = Inl EOF"
  by code_simp

text \<open>
  Claim C5. The store is open on a log of whole records \<open>rs\<close>, with the index that the
  records give (each key written once or several times), and no fault is planned.
  Then \<^verbatim>\<open>Compact\<close> succeeds, in whatever order \<^verbatim>\<open>range\<close> runs, and afterwards \<^verbatim>\<open>Get\<close> returns
  for every key the value of its last record, \<^verbatim>\<open>Keys\<close> returns exactly the keys of the
  records, and the size of the new log is the sum over the keys of
  \<open>16 + len(key) + len(latest value)\<close>, which is at most the size of the old log.
\<close>

theorem Compact_keeps_latest_values:
  assumes "open_on w b (encode_all rs)" "\<forall>r\<in>set rs. fits32 r"
    and "index b = index_from 0 rs Map.empty" "faults w = []" "range_order order (index b)"
  shows "\<exists>w' b' newlog. Compact order w b = (None, w', b') \<and>
    files w' (path b) = Some newlog \<and>
    (\<forall>k v. latest_value rs k = Some v \<longrightarrow> fst (Get k w' b') = Inr v) \<and>
    range_order order (index b') \<and>
    (\<forall>order'. range_order order' (index b') \<longrightarrow> set (Keys order' b') = rkey ` set rs) \<and>
    length newlog = (\<Sum>k\<in>rkey ` set rs. 16 + length k + length (the (latest_value rs k))) \<and>
    length newlog \<le> length (encode_all rs)"
proof -
  let ?log = "encode_all rs"
  let ?pairs = "range_map order (index b)"
  let ?new = "map (rewritten ?log) ?pairs"
  let ?g = "\<lambda>k. 16 + length k + length (the (latest_value rs k))"
  have inv: "index_inv rs (index b)"
    by (simp add: assms(3) index_inv_self)
  from Compact_store [OF assms(1,2) inv assms(4), of order] obtain w' b' where
    c: "Compact order w b = (None, w', b')" "open_on w' b' (encode_all ?new)"
    "faults w' = []" "path b' = path b" "index b' = index_from 0 ?new Map.empty"
    "\<forall>r\<in>set ?new. fits32 r"
    by blast
  have entry: "index_from 0 rs Map.empty k = Some off" if "(k, off) \<in> set ?pairs" for k off
    using that by (simp add: in_range_map assms(3))
  have val: "latest_value rs k = Some v"
    if "(ts, k, v) \<in> set ?new" for ts k v
  proof -
    from that obtain k' off where e: "(k', off) \<in> set ?pairs" "(ts, k, v) = rewritten ?log (k', off)"
      by auto
    then have "k' = k" "v = value_at ?log off"
      by simp_all
    with entry_record(2) [OF assms(2) entry [OF e(1)]] show ?thesis
      by simp
  qed
  have keys: "rkey ` set ?new = rkey ` set rs"
  proof -
    have "rkey ` set ?new = fst ` set ?pairs"
      by (simp add: image_image)
    also have "\<dots> = dom (index b)"
      by (rule set_keys_range_map [OF assms(5)])
    also have "\<dots> = rkey ` set rs"
      by (simp add: assms(3) dom_index_from)
    finally show ?thesis .
  qed
  have get: "fst (Get k w' b') = Inr v" if "latest_value rs k = Some v" for k v
  proof -
    from that have "k \<in> rkey ` set ?new"
      unfolding keys by (rule latest_value_key)
    then have "k \<in> dom (index b')"
      by (simp add: c(5) dom_index_from)
    then obtain off where off: "index_from 0 ?new Map.empty k = Some off"
      by (auto simp: c(5))
    from index_from_located [OF this] obtain ts v' pre post where
      l: "encode_all ?new = pre @ encode ts k v' @ post" "length pre = off"
      "(ts, k, v') \<in> set ?new"
      by blast
    from val [OF l(3)] that have "v' = v"
      by simp
    from fits32_mem [OF c(6) l(3)] have fit: "length k < 2 ^ 32" "length v' < 2 ^ 32"
      by simp_all
    have op: "open_on w' b' (pre @ encode ts k v' @ post)"
      using c(2) by (simp only: l(1))
    have ix: "index b' k = Some (length pre)"
      using off by (simp add: c(5) l(2))
    have "Get k w' b' = (Inr v', w')"
      using op c(3) ix fit by (rule Get_at_record)
    with \<open>v' = v\<close> show ?thesis
      by simp
  qed
  have ks: "set (Keys order' b') = rkey ` set rs" if "range_order order' (index b')" for order'
  proof -
    have "set (Keys order' b') = fst ` set (range_map order' (index b'))"
      by (simp add: Keys_def)
    also have "\<dots> = dom (index b')"
      by (rule set_keys_range_map [OF that])
    also have "\<dots> = rkey ` set ?new"
      by (simp add: c(5) dom_index_from)
    finally show ?thesis
      by (simp only: keys)
  qed
  have ro: "range_order order (index b')"
  proof -
    have "dom (index b') = rkey ` set ?new"
      by (simp add: c(5) dom_index_from)
    also have "\<dots> = dom (index b)"
      unfolding keys by (simp add: assms(3) dom_index_from)
    finally have "dom (index b') = dom (index b)" .
    with assms(5) show ?thesis
      by (simp add: range_order_def)
  qed
  have size: "length (encode_all ?new) = sum ?g (rkey ` set rs)"
  proof -
    have "length (encode_all ?new)
        = (\<Sum>r\<leftarrow>?new. 16 + length (rkey r) + length (snd (snd r)))"
      by (rule length_encode_all)
    also have "\<dots> = (\<Sum>r\<leftarrow>?new. ?g (rkey r))"
    proof (rule arg_cong [where f = sum_list], rule map_cong [OF refl])
      fix r assume "r \<in> set ?new"
      then have "(fst r, rkey r, snd (snd r)) \<in> set ?new"
        by (simp add: rkey_def)
      from val [OF this] show "16 + length (rkey r) + length (snd (snd r)) = ?g (rkey r)"
        by simp
    qed
    also have "\<dots> = (\<Sum>k\<leftarrow>map rkey ?new. ?g k)"
      by (simp add: comp_def)
    also have "map rkey ?new = map fst ?pairs"
      by simp
    also have "(\<Sum>k\<leftarrow>map fst ?pairs. ?g k) = sum ?g (set (map fst ?pairs))"
      by (rule sum_list_distinct_conv_sum_set [OF distinct_range_map [OF assms(5)]])
    also have "set (map fst ?pairs) = rkey ` set rs"
      using keys by (simp add: image_image)
    finally show ?thesis .
  qed
  have fl: "files w' (path b) = Some (encode_all ?new)"
    using c(2,4) by (simp add: open_on_def)
  have "length (encode_all ?new) \<le> length (encode_all rs)"
    unfolding size by (rule latest_sizes_le)
  with c(1) fl get ro ks size show ?thesis
    by blast
qed

text \<open>
  The claim at work: \<^verbatim>\<open>k\<close> written twice and \<^verbatim>\<open>j\<close> once, 55 bytes before and 37 after.
\<close>

theorem Compact_keeps_latest_values_witness:
  "\<exists>w' b' newlog.
     Compact [''j'', ''k'']
       (world_with (encode_all [(1, ''k'', ''a''), (2, ''k'', ''bb''), (3, ''j'', ''c'')]) [])
       (engine_with (index_from 0 [(1, ''k'', ''a''), (2, ''k'', ''bb''), (3, ''j'', ''c'')] Map.empty))
       = (None, w', b') \<and>
     files w' ''db'' = Some newlog \<and>
     fst (Get ''k'' w' b') = Inr ''bb'' \<and> fst (Get ''j'' w' b') = Inr ''c'' \<and>
     set (Keys [''j'', ''k''] b') = {''k'', ''j''} \<and>
     length newlog = 37 \<and> 37 \<le> length (encode_all [(1, ''k'', ''a''), (2, ''k'', ''bb''), (3, ''j'', ''c'')])"
proof -
  let ?rs = "[(1, ''k'', ''a''), (2, ''k'', ''bb''), (3, ''j'', ''c'')] :: log_record list"
  let ?w = "world_with (encode_all ?rs) []"
  let ?b = "engine_with (index_from 0 ?rs Map.empty)"
  have ro: "range_order [''j'', ''k''] (index ?b)"
    by (simp add: range_order_def dom_index_from)
  have lv: "latest_value ?rs ''k'' = Some ''bb''" "latest_value ?rs ''j'' = Some ''c''"
    by (simp_all add: latest_value_def)
  have sz: "(\<Sum>k\<in>rkey ` set ?rs. 16 + length k + length (the (latest_value ?rs k))) = 37"
    by (simp add: latest_value_def)
  from Compact_keeps_latest_values [of ?w ?b ?rs "[''j'', ''k'']"] ro
  obtain w' b' newlog where
    c: "Compact [''j'', ''k''] ?w ?b = (None, w', b')" "files w' ''db'' = Some newlog"
    "\<forall>k v. latest_value ?rs k = Some v \<longrightarrow> fst (Get k w' b') = Inr v"
    "range_order [''j'', ''k''] (index b')"
    "\<forall>order'. range_order order' (index b') \<longrightarrow> set (Keys order' b') = rkey ` set ?rs"
    "length newlog = (\<Sum>k\<in>rkey ` set ?rs. 16 + length k + length (the (latest_value ?rs k)))"
    "length newlog \<le> length (encode_all ?rs)"
    by (auto simp: fits32_def)
  have "fst (Get ''k'' w' b') = Inr ''bb''" "fst (Get ''j'' w' b') = Inr ''c''"
    using c(3) lv by simp_all
  moreover have "set (Keys [''j'', ''k''] b') = {''k'', ''j''}"
    using c(4,5) by auto
  moreover have "length newlog = 37" "37 \<le> length (encode_all ?rs)"
    using c(6,7) sz by simp_all
  ultimately show ?thesis
    using c(1,2) by blast
qed

text \<open>
  Claim C6. When the append of \<^verbatim>\<open>Set\<close> fails, \<^verbatim>\<open>Set\<close> returns the I/O error and the
  index is as it was. First part: whatever error \<^verbatim>\<open>Set\<close> returns, the index it leaves is
  the index it found. Second part: on an open engine, when the seek goes through and
  the operating system fails the write (after any number \<open>n\<close> of bytes), the result
  of \<^verbatim>\<open>Set\<close> is that error.
\<close>

theorem Set_failed_append_keeps_index:
  "(fst (Set key val ts w b) \<noteq> None \<longrightarrow> index (snd (snd (Set key val ts w b))) = index b) \<and>
   (open_on w b log \<longrightarrow> faults w = None # Some n # rest \<longrightarrow>
      fst (Set key val ts w b) = Some ErrIO)"
proof
  show "fst (Set key val ts w b) \<noteq> None \<longrightarrow> index (snd (snd (Set key val ts w b))) = index b"
    using Set_error_index [of key val ts w b]
    by (cases "Set key val ts w b") auto
next
  show "open_on w b log \<longrightarrow> faults w = None # Some n # rest \<longrightarrow>
      fst (Set key val ts w b) = Some ErrIO"
    by (simp add: Set_def Seek_def Write_def open_on_def next_fault_def Let_def)
qed

text \<open>The claim at work: a write that breaks off after three bytes, on an empty index.\<close>

theorem Set_failed_append_keeps_index_witness:
  "fst (Set ''k'' ''v'' 0 (world_with [] [None, Some 3]) (engine_with Map.empty)) = Some ErrIO \<and>
   index (snd (snd (Set ''k'' ''v'' 0 (world_with [] [None, Some 3]) (engine_with Map.empty))))
     = Map.empty"
  using Set_failed_append_keeps_index
    [of "''k''" "''v''" 0 "world_with [] [None, Some 3]" "engine_with Map.empty" "[]" 3 "[]"]
  by simp

text \<open>
  Claim C7. In a run with no fault planned, on a store whose log holds whole records
  and whose index entries each give the offset at which the last record with that key
  starts, a \<^verbatim>\<open>Set\<close> of a key and a value that fit the header, a \<^verbatim>\<open>Load\<close> and a \<^verbatim>\<open>Compact\<close> (in
  whatever order \<^verbatim>\<open>range\<close> runs) succeed and leave such a store: after \<^verbatim>\<open>Set\<close> the log has
  the new record at its end, after \<^verbatim>\<open>Load\<close> it is unchanged, after \<^verbatim>\<open>Compact\<close> it holds the
  records that the entries of the old index pointed at, one for each key.
\<close>

theorem index_entries_are_latest_records:
  assumes "store_inv w b rs" "faults w = []"
  shows "(fits32 (ts, key, val) \<longrightarrow>
           (\<exists>w' b'. Set key val ts w b = (None, w', b') \<and>
              store_inv w' b' (rs @ [(ts, key, val)]))) \<and>
         (\<exists>w' b'. Load w b = (None, w', b') \<and> store_inv w' b' rs) \<and>
         (\<exists>w' b'. Compact order w b = (None, w', b') \<and>
            store_inv w' b' (map (rewritten (encode_all rs)) (range_map order (index b))))"
proof (intro conjI impI)
  assume "fits32 (ts, key, val)"
  from Set_store [OF assms this]
  show "\<exists>w' b'. Set key val ts w b = (None, w', b') \<and> store_inv w' b' (rs @ [(ts, key, val)])"
    by blast
next
  from Load_store [OF assms] show "\<exists>w' b'. Load w b = (None, w', b') \<and> store_inv w' b' rs"
    by blast
next
  have "open_on w b (encode_all rs)" "\<forall>r\<in>set rs. fits32 r" "index_inv rs (index b)"
    using assms(1) by (simp_all add: store_inv_def)
  from Compact_store [OF this assms(2), of order]
  show "\<exists>w' b'. Compact order w b = (None, w', b') \<and>
      store_inv w' b' (map (rewritten (encode_all rs)) (range_map order (index b)))"
    unfolding store_inv_def using index_inv_self by metis
qed

text \<open>
  The claim at work on a store with one record.
\<close>

theorem index_entries_are_latest_records_witness:
  "(\<exists>w' b'. Set ''k'' ''b'' 2 (world_with (encode 1 ''k'' ''a'') []) (engine_with [''k'' \<mapsto> 0])
        = (None, w', b') \<and>
      store_inv w' b' [(1, ''k'', ''a''), (2, ''k'', ''b'')]) \<and>
   (\<exists>w' b'. Load (world_with (encode 1 ''k'' ''a'') []) (engine_with [''k'' \<mapsto> 0])
        = (None, w', b') \<and>
      store_inv w' b' [(1, ''k'', ''a'')]) \<and>
   (\<exists>w' b'. Compact [''k''] (world_with (encode 1 ''k'' ''a'') []) (engine_with [''k'' \<mapsto> 0])
        = (None, w', b') \<and>
      store_inv w' b' [(1, ''k'', ''a'')])"
proof -
  have "rewritten (encode 1 ''k'' ''a'') (''k'', 0) = (1, ''k'', ''a'')"
    using timestamp_at_encode [of "[]" 1 "''k''" "''a''" "[]"]
      value_at_encode [of "''k''" "''a''" "[]" 1 "[]"]
    by simp
  then show ?thesis
    using index_entries_are_latest_records [OF store_inv_example, of 2 "''k''" "''b''" "[''k'']"]
    by (simp add: fits32_def range_map_def)
qed

text \<open>
  Claim C8. \<^verbatim>\<open>Get\<close> fails with \<open>ErrKeyNotFound\<close> exactly when the key is not in the
  index, so it does on the engine \<^verbatim>\<open>Open\<close> returns. For a key in the index, with no fault
  planned and the record inside the log, it returns the \<^verbatim>\<open>valueSize\<close> bytes found at
  \<open>offset + 16 + keySize\<close>, both sizes read from the header at the offset. Nothing is
  assumed about the key bytes at the offset: they are not compared with the key.
\<close>

theorem Get_reads_record_at_offset:
  "(fst (Get key w b) = Inl ErrKeyNotFound \<longleftrightarrow> index b key = None) \<and>
   (Open p w = (Inr bn, wn) \<longrightarrow> fst (Get key wn bn) = Inl ErrKeyNotFound) \<and>
   (open_on w b log \<longrightarrow> faults w = [] \<longrightarrow> index b key = Some off \<longrightarrow>
    off + 16 + keySize_at log off + valueSize_at log off \<le> length log \<longrightarrow>
      fst (Get key w b)
        = Inr (take (valueSize_at log off) (drop (off + 16 + keySize_at log off) log)))"
proof (intro conjI impI)
  show "fst (Get key w b) = Inl ErrKeyNotFound \<longleftrightarrow> index b key = None"
    by (rule Get_KeyNotFound_iff)
next
  assume "Open p w = (Inr bn, wn)"
  then have "index bn key = None"
    by (simp add: Open_index)
  then show "fst (Get key wn bn) = Inl ErrKeyNotFound"
    by (simp add: Get_KeyNotFound_iff)
next
  assume "open_on w b log" "faults w = []" "index b key = Some off"
    "off + 16 + keySize_at log off + valueSize_at log off \<le> length log"
  then show "fst (Get key w b)
        = Inr (take (valueSize_at log off) (drop (off + 16 + keySize_at log off) log))"
    by (simp add: Get_ok record_at_def value_at_def)
qed

text \<open>
  The claim at work: the index sends \<^verbatim>\<open>other\<close> to a record whose key is \<^verbatim>\<open>k\<close>, and
  \<^verbatim>\<open>Get\<close> returns the value of that record; \<^verbatim>\<open>k\<close> itself is not in the index.
\<close>

theorem Get_reads_record_at_offset_witness:
  "fst (Get ''other'' (world_with (encode 0 ''k'' ''hello'') []) (engine_with [''other'' \<mapsto> 0]))
     = Inr ''hello'' \<and>
   fst (Get ''k'' (world_with (encode 0 ''k'' ''hello'') []) (engine_with [''other'' \<mapsto> 0]))
     = Inl ErrKeyNotFound \<and>
   fst (Get ''k'' (snd (Open ''db'' (world_with [] [])))
     \<lparr>bfile = \<lparr>fname = ''db'', fpos = 0, fappend = False, fclosed = False\<rparr>,
      path = ''db'', index = Map.empty\<rparr>) = Inl ErrKeyNotFound"
proof -
  let ?w = "world_with (encode 0 ''k'' ''hello'') []"
  let ?b = "engine_with [''other'' \<mapsto> 0]"
  let ?new = "\<lparr>bfile = \<lparr>fname = ''db'', fpos = 0, fappend = False, fclosed = False\<rparr>,
      path = ''db'', index = Map.empty\<rparr>"
  have o: "Open ''db'' (world_with [] []) = (Inr ?new, snd (Open ''db'' (world_with [] [])))"
    by (simp add: Open_def OpenFile_def world_with_def)
  have a: "fst (Get ''other'' ?w ?b) = Inr ''hello''"
    using Get_reads_record_at_offset [where key = "''other''" and w = ?w and b = ?b and p = "''db''"
        and bn = ?new and wn = "snd (Open ''db'' (world_with [] []))"
        and log = "encode 0 ''k'' ''hello''" and off = 0]
    by (simp add: sizes_at_example) (simp add: encode_def)
  have b: "fst (Get ''k'' ?w ?b) = Inl ErrKeyNotFound"
    using Get_reads_record_at_offset [where key = "''k''" and w = ?w and b = ?b and p = "''db''"
        and bn = ?new and wn = "snd (Open ''db'' (world_with [] []))"
        and log = "encode 0 ''k'' ''hello''" and off = 0]
    by simp
  have c: "fst (Get ''k'' (snd (Open ''db'' (world_with [] []))) ?new) = Inl ErrKeyNotFound"
    using Get_reads_record_at_offset [where key = "''k''" and w = "world_with [] []" and b = ?b
        and p = "''db''" and bn = ?new and wn = "snd (Open ''db'' (world_with [] []))"
        and log = "[]" and off = 0] o
    by simp
  show ?thesis using a b c by simp
qed

text \<open>
  Claim C9. \<^verbatim>\<open>Load\<close> is idempotent. For every world with no fault planned and every
  engine, whatever the log holds and whatever the index held, a second \<^verbatim>\<open>Load\<close> right
  after the first returns what the first returned and leaves the world and the engine,
  so the index, as the first left them. This is so also when the scan stops on an
  error. The reason is the one the claim gives: every call seeks to offset 0, and the
  entries it stores replace the entries under the same keys.
\<close>

theorem Load_idempotent:
  assumes "faults w = []"
  shows "Load (fst (snd (Load w b))) (snd (snd (Load w b))) = Load w b \<and>
    index (snd (snd (Load (fst (snd (Load w b))) (snd (snd (Load w b))))))
      = index (snd (snd (Load w b)))"
proof -
  obtain r w1 b1 where l: "Load w b = (r, w1, b1)"
    by (cases "Load w b") auto
  from Load_twice [OF assms l] l show ?thesis
    by simp
qed

text \<open>
  The claim at work on a log of one record and an empty index.
\<close>

theorem Load_idempotent_witness:
  "Load (fst (snd (Load (world_with (encode 7 ''k'' ''v'') []) (engine_with Map.empty))))
        (snd (snd (Load (world_with (encode 7 ''k'' ''v'') []) (engine_with Map.empty))))
     = Load (world_with (encode 7 ''k'' ''v'') []) (engine_with Map.empty) \<and>
   index (snd (snd (Load (fst (snd (Load (world_with (encode 7 ''k'' ''v'') []) (engine_with Map.empty))))
        (snd (snd (Load (world_with (encode 7 ''k'' ''v'') []) (engine_with Map.empty)))))))
     = index (snd (snd (Load (world_with (encode 7 ''k'' ''v'') []) (engine_with Map.empty))))"
  using Load_idempotent [of "world_with (encode 7 ''k'' ''v'') []" "engine_with Map.empty"]
  by simp

text \<open>
  Claim C10. On an open store with no fault planned, \<^verbatim>\<open>Set("", v)\<close> and \<^verbatim>\<open>Set(k, "")\<close>
  succeed for every \<open>v\<close> and \<open>k\<close> and append a record of \<open>16 + len(v)\<close> and of
  \<open>16 + len(k)\<close> bytes. \<^verbatim>\<open>Get\<close> of a key set to the empty value returns the empty string,
  not \<open>ErrKeyNotFound\<close>. When the length of \<open>v\<close> fits 32 bits, \<^verbatim>\<open>Get("")\<close> returns \<open>v\<close>.
  When moreover the log before the write was a sequence of whole records, both
  records survive \<^verbatim>\<open>Close\<close>, \<^verbatim>\<open>Open\<close> and \<^verbatim>\<open>Load\<close>: \<^verbatim>\<open>Get\<close> returns the same values afterwards
  (for \<open>k\<close> when its length fits 32 bits).
\<close>

theorem empty_key_and_empty_value:
  assumes "open_on w b log" "faults w = []"
  shows "(\<exists>w1 b1. Set [] val ts w b = (None, w1, b1) \<and>
            files w1 (path b) = Some (log @ encode ts [] val) \<and>
            length (encode ts [] val) = 16 + length val \<and>
            (length val < 2 ^ 32 \<longrightarrow>
               fst (Get [] w1 b1) = Inr val \<and>
               (log = encode_all rs \<and> (\<forall>r\<in>set rs. fits32 r) \<longrightarrow>
                  (\<exists>w2 b2. reopen w1 b1 = (None, w2, b2) \<and> fst (Get [] w2 b2) = Inr val)))) \<and>
         (\<exists>w1 b1. Set key [] ts w b = (None, w1, b1) \<and>
            files w1 (path b) = Some (log @ encode ts key []) \<and>
            length (encode ts key []) = 16 + length key \<and>
            fst (Get key w1 b1) = Inr [] \<and>
            (length key < 2 ^ 32 \<and> log = encode_all rs \<and> (\<forall>r\<in>set rs. fits32 r) \<longrightarrow>
               (\<exists>w2 b2. reopen w1 b1 = (None, w2, b2) \<and> fst (Get key w2 b2) = Inr [])))"
proof -
  have main: "\<exists>w1 b1. Set k v ts w b = (None, w1, b1) \<and>
            files w1 (path b) = Some (log @ encode ts k v) \<and>
            (v = [] \<longrightarrow> fst (Get k w1 b1) = Inr []) \<and>
            (length k < 2 ^ 32 \<and> length v < 2 ^ 32 \<longrightarrow>
               fst (Get k w1 b1) = Inr v \<and>
               (log = encode_all rs \<and> (\<forall>r\<in>set rs. fits32 r) \<longrightarrow>
                 (\<exists>w2 b2. reopen w1 b1 = (None, w2, b2) \<and> fst (Get k w2 b2) = Inr v)))" for k v
  proof -
    obtain r1 w1 b1 where s1: "Set k v ts w b = (r1, w1, b1)"
      by (cases "Set k v ts w b") auto
    note st1 = Set_ok_state [OF assms s1]
    have fl: "files w1 (path b) = Some (log @ encode ts k v)"
      using st1(2,5) by (simp add: open_on_def)
    have e: "fst (Get k w1 b1) = Inr []" if "v = []"
      using Set_Get_empty_value [OF assms, of k ts r1 w1 b1] s1 that by simp
    have "fst (Get k w1 b1) = Inr v \<and>
        (log = encode_all rs \<and> (\<forall>r\<in>set rs. fits32 r) \<longrightarrow>
          (\<exists>w2 b2. reopen w1 b1 = (None, w2, b2) \<and> fst (Get k w2 b2) = Inr v))"
      if fit: "length k < 2 ^ 32" "length v < 2 ^ 32"
    proof -
      have g: "Get k w1 b1 = (Inr v, w1)"
        using Set_Get [OF assms fit s1] by simp
      have "\<exists>w2 b2. reopen w1 b1 = (None, w2, b2) \<and> fst (Get k w2 b2) = Inr v"
        if wf: "log = encode_all rs" "\<forall>r\<in>set rs. fits32 r"
      proof -
        obtain r2 w2 b2 where ro: "reopen w1 b1 = (r2, w2, b2)"
          by (cases "reopen w1 b1") auto
        have "open_on w1 b1 (encode_all (rs @ [(ts, k, v)]))"
          using st1(2) wf(1) by simp
        from Get_reopen [OF this st1(3) wf(2) fit ro] ro show ?thesis
          by simp
      qed
      with g show ?thesis
        by simp
    qed
    with s1 st1(1) fl e show ?thesis
      by simp
  qed
  have a: "\<exists>w1 b1. Set [] val ts w b = (None, w1, b1) \<and>
            files w1 (path b) = Some (log @ encode ts [] val) \<and>
            length (encode ts [] val) = 16 + length val \<and>
            (length val < 2 ^ 32 \<longrightarrow>
               fst (Get [] w1 b1) = Inr val \<and>
               (log = encode_all rs \<and> (\<forall>r\<in>set rs. fits32 r) \<longrightarrow>
                  (\<exists>w2 b2. reopen w1 b1 = (None, w2, b2) \<and> fst (Get [] w2 b2) = Inr val)))"
    using main [of "[]" val] by auto
  have b: "\<exists>w1 b1. Set key [] ts w b = (None, w1, b1) \<and>
            files w1 (path b) = Some (log @ encode ts key []) \<and>
            length (encode ts key []) = 16 + length key \<and>
            fst (Get key w1 b1) = Inr [] \<and>
            (length key < 2 ^ 32 \<and> log = encode_all rs \<and> (\<forall>r\<in>set rs. fits32 r) \<longrightarrow>
               (\<exists>w2 b2. reopen w1 b1 = (None, w2, b2) \<and> fst (Get key w2 b2) = Inr []))"
    using main [of key "[]"] by auto
  from a b show ?thesis
    by (rule conjI)
qed

text \<open>
  The claim at work on a new store: both records are 17 bytes long.
\<close>

theorem empty_key_and_empty_value_witness:
  "(\<exists>w1 b1. Set [] ''v'' 0 (world_with [] []) (engine_with Map.empty) = (None, w1, b1) \<and>
      files w1 ''db'' = Some (encode 0 [] ''v'') \<and> length (encode 0 [] ''v'') = 17 \<and>
      fst (Get [] w1 b1) = Inr ''v'' \<and>
      (\<exists>w2 b2. reopen w1 b1 = (None, w2, b2) \<and> fst (Get [] w2 b2) = Inr ''v'')) \<and>
   (\<exists>w1 b1. Set ''k'' [] 0 (world_with [] []) (engine_with Map.empty) = (None, w1, b1) \<and>
      files w1 ''db'' = Some (encode 0 ''k'' []) \<and> length (encode 0 ''k'' []) = 17 \<and>
      fst (Get ''k'' w1 b1) = Inr [] \<and>
      (\<exists>w2 b2. reopen w1 b1 = (None, w2, b2) \<and> fst (Get ''k'' w2 b2) = Inr []))"
  using empty_key_and_empty_value
    [of "world_with [] []" "engine_with Map.empty" "[]" "''v''" 0 "[]" "''k''"]
  by simp

end
